theory Spec2Isabelle
  imports Main "HOL-Library.Word"
begin

section \<open>A heap of packets in a flash memory (flashheap.c)\<close>

text \<open>
  The allocator keeps a sequence of packets in the address range
  \<open>[offset, offset + size)\<close> of a storage device. Every packet is a header of
  \<open>sizeof (flashheap_packet_t)\<close> bytes followed by its payload; the header holds one
  signed field: negative for a free packet, otherwise the length of an allocated one.

  The header file that declares \<open>flashheap_size_t\<close>, \<open>flashheap_addr_t\<close> and
  \<open>flashheap_dev_t\<close> is not among the sources, so the width of the header is a parameter
  of every operation. Addresses and sizes are modelled as mathematical integers: the
  arithmetic of the source is reproduced as it is written, for values that stay within the
  range of its integer types.
\<close>

subsection \<open>The packet header\<close>

text \<open>
  Modelled from the spec: the header is "a fixed-width signed integer"; the type
  \<open>flashheap_size_t\<close> itself is declared in the missing header file. The parameter
  names the fixed-width signed type; \<open>sizeof_packet\<close> is \<open>sizeof (flashheap_packet_t)\<close>,
  a structure with that single field.
\<close>

datatype flashheap_size_t = Int8 | Int16 | Int32 | Int64

fun nbytes :: "flashheap_size_t \<Rightarrow> nat" where
  "nbytes Int8 = 1"
| "nbytes Int16 = 2"
| "nbytes Int32 = 4"
| "nbytes Int64 = 8"

definition sizeof_packet :: "flashheap_size_t \<Rightarrow> int" where
  "sizeof_packet w = int (nbytes w)"

text \<open>The values that the header type can hold.\<close>

definition fits :: "flashheap_size_t \<Rightarrow> int \<Rightarrow> bool" where
  "fits w v \<longleftrightarrow> - (2 ^ (8 * nbytes w - 1)) \<le> v \<and> v < 2 ^ (8 * nbytes w - 1)"

subsection \<open>The heap instance (flashheap_dev_t)\<close>

text \<open>
  The device is reached through the two function pointers of the heap only, and always
  for a whole header: \<open>read\<close> gives the header found at an address, or \<open>None\<close> when the
  device transferred fewer bytes than asked; \<open>write\<close> gives the device afterwards and
  whether all the bytes were transferred. Address 0 is the null pointer of the source.
\<close>

record 'd flashheap_dev =
  dev :: 'd
  read_op :: "'d \<Rightarrow> int \<Rightarrow> int option"
  write_op :: "'d \<Rightarrow> int \<Rightarrow> int \<Rightarrow> 'd \<times> bool"
  offset :: int
  last_h :: int
  size_h :: int

definition flashheap_packet_read :: "'d flashheap_dev \<Rightarrow> int \<Rightarrow> int option" where
  "flashheap_packet_read heap addr = read_op heap (dev heap) addr"

definition packet_write :: "'d flashheap_dev \<Rightarrow> int \<Rightarrow> int \<Rightarrow> 'd \<times> bool" where
  "packet_write heap addr v = write_op heap (dev heap) addr v"

lemma sizeof_packet_pos: "0 < sizeof_packet w"
  by (cases w) (simp_all add: sizeof_packet_def)

lemma neg_sizeof_less: "0 \<le> x \<Longrightarrow> - sizeof_packet w < x"
  using sizeof_packet_pos [of w] by linarith

subsection \<open>flashheap_free\<close>

text \<open>
  The linear search of \<open>flashheap_free\<close>. The state of the loop is the source's:
  \<open>prev_addr\<close>, \<open>prev_packet.size\<close>, \<open>packet.size\<close> (\<open>None\<close> while the local variable has
  not been read into) and \<open>addr\<close>.
\<close>

datatype scan = Fault | Stop int int int "int option"

function free_scan ::
  "flashheap_size_t \<Rightarrow> 'd flashheap_dev \<Rightarrow> int \<Rightarrow> int \<Rightarrow> int \<Rightarrow> int option \<Rightarrow> int \<Rightarrow> scan"
where
  "free_scan w heap desired prev_addr prev_size packet addr =
     (if addr < offset heap + size_h heap then
        (case flashheap_packet_read heap addr of
           None \<Rightarrow> Fault
         | Some p \<Rightarrow>
             if addr = desired then Stop addr prev_addr prev_size (Some p)
             else free_scan w heap desired addr p (Some p) (addr + \<bar>p\<bar> + sizeof_packet w))
      else Stop addr prev_addr prev_size packet)"
  by pat_completeness auto
termination
  by (relation "measure (\<lambda>(w, heap, desired, pa, ps, pk, addr).
          nat (offset heap + size_h heap - addr))")
     (auto intro: neg_sizeof_less)

declare free_scan.simps [simp del]

text \<open>The header and the address that \<open>flashheap_free\<close> writes, from the negated header
  of the packet, its address and the two neighbours.\<close>

definition coalesce ::
  "flashheap_size_t \<Rightarrow> int \<Rightarrow> int \<Rightarrow> int \<Rightarrow> int \<Rightarrow> int \<Rightarrow> int \<times> int"
where
  "coalesce w addr psize prev_addr prev_size next_size =
     (if prev_size < 0 \<and> next_size < 0 then
        (prev_addr, psize + (prev_size + next_size - 2 * sizeof_packet w))
      else if next_size < 0 then
        (addr, psize + (next_size - sizeof_packet w))
      else if prev_size < 0 then
        (prev_addr, psize + (prev_size - sizeof_packet w))
      else (addr, psize))"

text \<open>
  The result is \<open>None\<close> only where the source reads its local \<open>packet\<close> before anything
  was stored in it (the loop did not run and the requested address is \<open>offset\<close>).
\<close>

definition flashheap_free ::
  "flashheap_size_t \<Rightarrow> 'd flashheap_dev \<Rightarrow> int \<Rightarrow> (bool \<times> 'd flashheap_dev) option"
where
  "flashheap_free w heap ptr =
     (case free_scan w heap ptr 0 0 None (offset heap) of
        Fault \<Rightarrow> Some (False, heap)
      | Stop addr prev_addr prev_size packet \<Rightarrow>
          if addr \<noteq> ptr then Some (False, heap)
          else (case packet of
             None \<Rightarrow> None
           | Some p \<Rightarrow>
               if p < 0 then Some (False, heap)
               else
                 let psize = - p;
                     next_addr = addr + \<bar>psize\<bar> + sizeof_packet w
                 in (case flashheap_packet_read heap next_addr of
                       None \<Rightarrow> Some (False, heap)
                     | Some next_size \<Rightarrow>
                         let (a, v) = coalesce w addr psize prev_addr prev_size next_size;
                             (d, ok) = packet_write heap a v
                         in Some (ok, heap\<lparr>dev := d\<rparr>))))"

subsection \<open>flashheap_alloc\<close>

text \<open>The body of the \<open>if\<close> in \<open>flashheap_alloc\<close>: the free packet at \<open>addr\<close> with header
  \<open>p\<close> is large enough.\<close>

definition alloc_at ::
  "flashheap_size_t \<Rightarrow> 'd flashheap_dev \<Rightarrow> int \<Rightarrow> int \<Rightarrow> int \<Rightarrow> int \<times> 'd flashheap_dev"
where
  "alloc_at w heap sz addr p =
     (let (d1, ok1) =
            (if sz \<noteq> - p then
               write_op heap (dev heap) (addr + sizeof_packet w + sz)
                 (- (- p - sz - sizeof_packet w))
             else (dev heap, True))
      in if \<not> ok1 then (0, heap\<lparr>dev := d1\<rparr>)
         else
           let (d2, ok2) = write_op heap d1 addr sz
           in if \<not> ok2 then (0, heap\<lparr>dev := d2\<rparr>)
              else (addr, heap\<lparr>dev := d2, last_h := addr\<rparr>))"

function alloc_scan ::
  "flashheap_size_t \<Rightarrow> 'd flashheap_dev \<Rightarrow> int \<Rightarrow> int \<Rightarrow> int \<times> 'd flashheap_dev"
where
  "alloc_scan w heap sz addr =
     (if addr < offset heap + size_h heap then
        (case flashheap_packet_read heap addr of
           None \<Rightarrow> (0, heap)
         | Some p \<Rightarrow>
             if p < 0 \<and> sz \<le> - p then alloc_at w heap sz addr p
             else alloc_scan w heap sz (addr + \<bar>p\<bar> + sizeof_packet w))
      else (0, heap))"
  by pat_completeness auto
termination
  by (relation "measure (\<lambda>(w, heap, sz, addr). nat (offset heap + size_h heap - addr))")
     (auto intro: neg_sizeof_less)

declare alloc_scan.simps [simp del]

definition flashheap_alloc ::
  "flashheap_size_t \<Rightarrow> 'd flashheap_dev \<Rightarrow> int \<Rightarrow> int \<times> 'd flashheap_dev"
where
  "flashheap_alloc w heap sz = alloc_scan w heap sz (offset heap)"

subsection \<open>Walking the packets\<close>

text \<open>The callback gets the address, the header and its argument, and gives back whether
  to stop the walk and the argument as it has left it.\<close>

function flashheap_walk ::
  "flashheap_size_t \<Rightarrow> 'd flashheap_dev \<Rightarrow> int \<Rightarrow> (int \<Rightarrow> int \<Rightarrow> 'a \<Rightarrow> bool \<times> 'a) \<Rightarrow> 'a
     \<Rightarrow> bool \<times> 'a"
where
  "flashheap_walk w heap addr callback arg =
     (if addr < offset heap + size_h heap then
        (case flashheap_packet_read heap addr of
           None \<Rightarrow> (False, arg)
         | Some p \<Rightarrow>
             (case callback addr p arg of
                (True, arg') \<Rightarrow> (True, arg')
              | (False, arg') \<Rightarrow>
                  flashheap_walk w heap (addr + \<bar>p\<bar> + sizeof_packet w) callback arg'))
      else (False, arg))"
  by pat_completeness auto
termination
  by (relation "measure (\<lambda>(w, heap, addr, callback, arg).
          nat (offset heap + size_h heap - addr))")
     (auto intro: neg_sizeof_less)

declare flashheap_walk.simps [simp del]

definition flashheap_alloc_p :: "int \<Rightarrow> int \<Rightarrow> int \<Rightarrow> bool \<times> int" where
  "flashheap_alloc_p addr p arg = (p \<ge> 0, addr)"

text \<open>The local \<open>addr\<close> of \<open>flashheap_alloc_first\<close> is not initialised in the source; it is
  returned only after the callback has stored into it. The model starts it at 0.\<close>

definition flashheap_alloc_first :: "flashheap_size_t \<Rightarrow> 'd flashheap_dev \<Rightarrow> int" where
  "flashheap_alloc_first w heap =
     (case flashheap_walk w heap (offset heap) flashheap_alloc_p 0 of
        (True, addr) \<Rightarrow> addr
      | (False, _) \<Rightarrow> 0)"

definition flashheap_alloc_next :: "flashheap_size_t \<Rightarrow> 'd flashheap_dev \<Rightarrow> int \<Rightarrow> int" where
  "flashheap_alloc_next w heap ptr =
     (if ptr = 0 then flashheap_alloc_first w heap
      else (case flashheap_packet_read heap ptr of
              None \<Rightarrow> 0
            | Some p \<Rightarrow>
                let addr = ptr + \<bar>p\<bar>
                in (case flashheap_walk w heap addr flashheap_alloc_p addr of
                      (True, addr') \<Rightarrow> addr'
                    | (False, _) \<Rightarrow> 0)))"

definition flashheap_alloc_size :: "'d flashheap_dev \<Rightarrow> int \<Rightarrow> int" where
  "flashheap_alloc_size heap ptr =
     (case flashheap_packet_read heap ptr of
        None \<Rightarrow> 0
      | Some p \<Rightarrow> if p < 0 then 0 else p)"

subsection \<open>Erasing and binding a heap\<close>

definition flashheap_erase ::
  "flashheap_size_t \<Rightarrow> 'd flashheap_dev \<Rightarrow> bool \<times> 'd flashheap_dev"
where
  "flashheap_erase w heap =
     (let (d, ok) = write_op heap (dev heap) (offset heap) (- (size_h heap - sizeof_packet w))
      in (ok, heap\<lparr>dev := d\<rparr>))"

text \<open>\<open>flashheap_init\<close> fills the one static instance; its field \<open>last\<close> is not assigned and
  keeps the zero of static storage.\<close>

definition flashheap_init ::
  "int \<Rightarrow> int \<Rightarrow> 'd \<Rightarrow> ('d \<Rightarrow> int \<Rightarrow> int option) \<Rightarrow> ('d \<Rightarrow> int \<Rightarrow> int \<Rightarrow> 'd \<times> bool)
     \<Rightarrow> 'd flashheap_dev"
where
  "flashheap_init off sz d rd wr =
     \<lparr>dev = d, read_op = rd, write_op = wr, offset = off, last_h = 0, size_h = sz\<rparr>"

subsection \<open>A storage device: the RAM disk (ram_msd.c)\<close>

text \<open>
  \<open>mem\<close> is the byte array of the RAM disk and \<open>ram_msd_bytes\<close> its length
  (\<open>RAM_MSD_BYTES\<close>, from a configuration header that is not among the sources, so a
  parameter). Both operations refuse a transfer that would pass the end of the array and
  transfer nothing then. The address is unsigned in the source: a negative address of the
  model stands for one beyond every array.
\<close>

type_synonym ram = "int \<Rightarrow> 8 word"

definition ram_msd_read :: "int \<Rightarrow> ram \<Rightarrow> int \<Rightarrow> nat \<Rightarrow> nat \<times> 8 word list" where
  "ram_msd_read ram_msd_bytes mem addr n =
     (if addr < 0 \<or> addr + int n > ram_msd_bytes then (0, [])
      else (n, map (\<lambda>i. mem (addr + int i)) [0..<n]))"

definition ram_msd_write :: "int \<Rightarrow> ram \<Rightarrow> int \<Rightarrow> 8 word list \<Rightarrow> nat \<Rightarrow> ram \<times> nat" where
  "ram_msd_write ram_msd_bytes mem addr buffer n =
     (if addr < 0 \<or> addr + int n > ram_msd_bytes then (mem, 0)
      else (\<lambda>a. if addr \<le> a \<and> a < addr + int n then buffer ! nat (a - addr) else mem a, n))"

text \<open>The bytes of a header in memory: two's complement, least significant byte first.\<close>

fun le_bytes :: "nat \<Rightarrow> int \<Rightarrow> 8 word list" where
  "le_bytes 0 v = []"
| "le_bytes (Suc n) v = word_of_int v # le_bytes n (v div 256)"

fun le_value :: "8 word list \<Rightarrow> int" where
  "le_value [] = 0"
| "le_value (b # bs) = uint b + 256 * le_value bs"

definition header_value :: "flashheap_size_t \<Rightarrow> 8 word list \<Rightarrow> int" where
  "header_value w bs =
     (let u = le_value bs
      in if u \<ge> 2 ^ (8 * nbytes w - 1) then u - 2 ^ (8 * nbytes w) else u)"

text \<open>The two operations as the heap calls them: for the \<open>sizeof (packet)\<close> bytes of a
  header, comparing the count that comes back with \<open>sizeof (packet)\<close>.\<close>

definition ram_read :: "flashheap_size_t \<Rightarrow> int \<Rightarrow> ram \<Rightarrow> int \<Rightarrow> int option" where
  "ram_read w ram_msd_bytes mem addr =
     (case ram_msd_read ram_msd_bytes mem addr (nbytes w) of
        (k, bs) \<Rightarrow> if k = nbytes w then Some (header_value w bs) else None)"

definition ram_write :: "flashheap_size_t \<Rightarrow> int \<Rightarrow> ram \<Rightarrow> int \<Rightarrow> int \<Rightarrow> ram \<times> bool" where
  "ram_write w ram_msd_bytes mem addr v =
     (case ram_msd_write ram_msd_bytes mem addr (le_bytes (nbytes w) v) (nbytes w) of
        (mem', k) \<Rightarrow> (mem', k = nbytes w))"

text \<open>A heap bound to a RAM disk with the bytes \<open>mem\<close>.\<close>

definition ram_heap ::
  "flashheap_size_t \<Rightarrow> int \<Rightarrow> ram \<Rightarrow> int \<Rightarrow> int \<Rightarrow> ram flashheap_dev"
where
  "ram_heap w ram_msd_bytes mem off sz =
     flashheap_init off sz mem (ram_read w ram_msd_bytes) (ram_write w ram_msd_bytes)"

subsection \<open>The packets of a heap\<close>

text \<open>
  The sequence of packets that a walk from \<open>addr\<close> meets, each with its address and its
  header: the next packet is at \<open>addr + sizeof (packet) + \<bar>header\<bar>\<close>. The sequence stops
  at the end of the region, or at a header that the device does not deliver.
\<close>

function packets :: "flashheap_size_t \<Rightarrow> 'd flashheap_dev \<Rightarrow> int \<Rightarrow> (int \<times> int) list" where
  "packets w heap addr =
     (if addr < offset heap + size_h heap then
        (case flashheap_packet_read heap addr of
           None \<Rightarrow> []
         | Some p \<Rightarrow> (addr, p) # packets w heap (addr + \<bar>p\<bar> + sizeof_packet w))
      else [])"
  by pat_completeness auto
termination
  by (relation "measure (\<lambda>(w, heap, addr). nat (offset heap + size_h heap - addr))")
     (auto intro: neg_sizeof_less)

declare packets.simps [simp del]

text \<open>The address at which the walk leaves the region; \<open>None\<close> when a header cannot be
  read.\<close>

function walk_end :: "flashheap_size_t \<Rightarrow> 'd flashheap_dev \<Rightarrow> int \<Rightarrow> int option" where
  "walk_end w heap addr =
     (if addr < offset heap + size_h heap then
        (case flashheap_packet_read heap addr of
           None \<Rightarrow> None
         | Some p \<Rightarrow> walk_end w heap (addr + \<bar>p\<bar> + sizeof_packet w))
      else Some addr)"
  by pat_completeness auto
termination
  by (relation "measure (\<lambda>(w, heap, addr). nat (offset heap + size_h heap - addr))")
     (auto intro: neg_sizeof_less)

declare walk_end.simps [simp del]

text \<open>The tiling invariant: the walk from \<open>offset\<close> ends exactly on \<open>offset + size\<close>.\<close>

definition tiled :: "flashheap_size_t \<Rightarrow> 'd flashheap_dev \<Rightarrow> bool" where
  "tiled w heap \<longleftrightarrow> walk_end w heap (offset heap) = Some (offset heap + size_h heap)"

text \<open>The coalescing invariant: no two packets in a row are both free.\<close>

fun no_adjacent_free :: "(int \<times> int) list \<Rightarrow> bool" where
  "no_adjacent_free [] = True"
| "no_adjacent_free [x] = True"
| "no_adjacent_free ((a, p) # (b, q) # ps) =
     (\<not> (p < 0 \<and> q < 0) \<and> no_adjacent_free ((b, q) # ps))"

text \<open>Whether a sequence starts, or ends, with a free packet.\<close>

definition free_hd :: "(int \<times> int) list \<Rightarrow> bool" where
  "free_hd ps = (case ps of [] \<Rightarrow> False | (a, p) # _ \<Rightarrow> p < 0)"

definition free_last :: "(int \<times> int) list \<Rightarrow> bool" where
  "free_last ps = (ps \<noteq> [] \<and> snd (last ps) < 0)"

subsection \<open>What the allocator expects of a device\<close>

text \<open>
  A header that was written in full is read back at its address, and headers that share
  no byte with it read as before.
\<close>

definition store_ok :: "flashheap_size_t \<Rightarrow> 'd flashheap_dev \<Rightarrow> bool" where
  "store_ok w heap \<longleftrightarrow>
     (\<forall>d a v d'. write_op heap d a v = (d', True) \<longrightarrow> fits w v \<longrightarrow>
        read_op heap d' a = Some v \<and>
        (\<forall>b. b + sizeof_packet w \<le> a \<or> a + sizeof_packet w \<le> b \<longrightarrow>
           read_op heap d' b = read_op heap d b))"

text \<open>A write that reports a short transfer has stored nothing.\<close>

definition write_atomic :: "'d flashheap_dev \<Rightarrow> bool" where
  "write_atomic heap \<longleftrightarrow>
     (\<forall>d a v. \<not> snd (write_op heap d a v) \<longrightarrow> fst (write_op heap d a v) = d)"

subsection \<open>The operations in the words of the specification\<close>

text \<open>First fit: the first packet of the sequence that is free and whose capacity is at
  least the requested size.\<close>

definition first_fit :: "int \<Rightarrow> (int \<times> int) list \<Rightarrow> (int \<times> int) option" where
  "first_fit sz ps = find (\<lambda>(a, p). p < 0 \<and> sz \<le> - p) ps"

text \<open>
  The four cases of coalescing: from the packet before (if there is one), the packet that
  is released and the header that follows it, the address and the magnitude of the free
  packet that results.
\<close>

definition merged_packet ::
  "flashheap_size_t \<Rightarrow> (int \<times> int) option \<Rightarrow> int \<times> int \<Rightarrow> int \<Rightarrow> int \<times> int"
where
  "merged_packet w prev cur next_size =
     (let left_free = (case prev of None \<Rightarrow> False | Some (_, q) \<Rightarrow> q < 0);
          left_addr = (case prev of None \<Rightarrow> 0 | Some (a, _) \<Rightarrow> a);
          left_size = (case prev of None \<Rightarrow> 0 | Some (_, q) \<Rightarrow> \<bar>q\<bar>);
          right_free = (next_size < 0)
      in if left_free \<and> right_free then
           (left_addr, left_size + \<bar>snd cur\<bar> + \<bar>next_size\<bar> + 2 * sizeof_packet w)
         else if right_free then
           (fst cur, \<bar>snd cur\<bar> + \<bar>next_size\<bar> + sizeof_packet w)
         else if left_free then
           (left_addr, left_size + \<bar>snd cur\<bar> + sizeof_packet w)
         else (fst cur, \<bar>snd cur\<bar>))"

text \<open>The packet before the one that follows \<open>xs\<close> in a sequence.\<close>

definition left_neighbour :: "(int \<times> int) list \<Rightarrow> (int \<times> int) option" where
  "left_neighbour xs = (if xs = [] then None else Some (last xs))"

text \<open>
  The rule of coalescing on the packets of the region: the neighbours are the packet
  before and the packet after in the sequence, where there is one; a side without a
  packet has no free neighbour.
\<close>

definition right_neighbour :: "(int \<times> int) list \<Rightarrow> (int \<times> int) option" where
  "right_neighbour ys = (case ys of [] \<Rightarrow> None | y # _ \<Rightarrow> Some y)"

definition coalescing_rule ::
  "flashheap_size_t \<Rightarrow> (int \<times> int) option \<Rightarrow> int \<times> int \<Rightarrow> (int \<times> int) option \<Rightarrow> int \<times> int"
where
  "coalescing_rule w left cur right =
     (let left_free = (case left of None \<Rightarrow> False | Some (_, q) \<Rightarrow> q < 0);
          left_addr = (case left of None \<Rightarrow> 0 | Some (a, _) \<Rightarrow> a);
          left_size = (case left of None \<Rightarrow> 0 | Some (_, q) \<Rightarrow> \<bar>q\<bar>);
          right_free = (case right of None \<Rightarrow> False | Some (_, n) \<Rightarrow> n < 0);
          right_size = (case right of None \<Rightarrow> 0 | Some (_, n) \<Rightarrow> \<bar>n\<bar>)
      in if left_free \<and> right_free then
           (left_addr, left_size + \<bar>snd cur\<bar> + right_size + 2 * sizeof_packet w)
         else if right_free then
           (fst cur, \<bar>snd cur\<bar> + right_size + sizeof_packet w)
         else if left_free then
           (left_addr, left_size + \<bar>snd cur\<bar> + sizeof_packet w)
         else (fst cur, \<bar>snd cur\<bar>))"

subsection \<open>The scenario of the specification\<close>

text \<open>A header of two bytes and a region of 100 bytes at address 1000, on a RAM disk of
  2048 bytes that are all zero, as a static array starts.\<close>

definition scenario :: "ram flashheap_dev" where
  "scenario = ram_heap Int16 2048 (\<lambda>_. 0) 1000 100"

definition erased :: "ram flashheap_dev" where
  "erased = snd (flashheap_erase Int16 scenario)"

definition alloc30 :: "ram flashheap_dev" where
  "alloc30 = snd (flashheap_alloc Int16 erased 30)"

definition alloc20 :: "ram flashheap_dev" where
  "alloc20 = snd (flashheap_alloc Int16 alloc30 20)"

text \<open>The scenario after the first allocation, on a device that refuses every write.\<close>

definition write_protected :: "ram flashheap_dev" where
  "write_protected = alloc30\<lparr>write_op := (\<lambda>d a v. (d, False))\<rparr>"

text \<open>The same heap on a device that stores the first byte of every header written and
  reports the short transfer.\<close>

definition short_writer :: "ram flashheap_dev" where
  "short_writer =
     alloc30\<lparr>write_op :=
       (\<lambda>mem addr v. (fst (ram_msd_write 2048 mem addr (le_bytes (nbytes Int16) v) 1), False))\<rparr>"

text \<open>A heap with a large free packet before a small one.\<close>

definition fragmented :: "ram flashheap_dev" where
  "fragmented =
     (let h1 = snd (flashheap_alloc Int16 erased 50);
          h2 = snd (flashheap_alloc Int16 h1 10);
          h3 = snd (flashheap_alloc Int16 h2 20)
      in (case flashheap_free Int16 h3 1000 of None \<Rightarrow> h3 | Some (_, h4) \<Rightarrow> h4))"

text \<open>The whole region as one allocated packet, on the zeroed RAM disk, on a device whose
  bytes read \<open>0xFF\<close> as erased flash, and on a device that ends where the region ends.\<close>

definition full :: "ram flashheap_dev" where
  "full = snd (flashheap_alloc Int16 erased 98)"

definition full_on_flash :: "ram flashheap_dev" where
  "full_on_flash =
     snd (flashheap_alloc Int16
            (snd (flashheap_erase Int16 (ram_heap Int16 2048 (\<lambda>_. 255) 1000 100))) 98)"

definition full_at_device_end :: "ram flashheap_dev" where
  "full_at_device_end =
     snd (flashheap_alloc Int16
            (snd (flashheap_erase Int16 (ram_heap Int16 1100 (\<lambda>_. 0) 1000 100))) 98)"

section \<open>Properties\<close>

subsection \<open>The sequence of packets and the two scans\<close>

lemma packets_Cons:
  "packets w heap a = (b, q) # ys \<Longrightarrow>
     b = a \<and> a < offset heap + size_h heap \<and> flashheap_packet_read heap a = Some q \<and>
     ys = packets w heap (a + \<bar>q\<bar> + sizeof_packet w)"
  by (auto simp add: packets.simps [of w heap a] split: if_splits option.splits)

lemma packets_ge: "(b, q) \<in> set (packets w heap a) \<Longrightarrow> a \<le> b"
proof (induction w heap a rule: packets.induct)
  case (1 w heap addr)
  show ?case
  proof (cases "packets w heap addr")
    case Nil
    with "1.prems" show ?thesis by simp
  next
    case (Cons x ys)
    obtain c r where x: "x = (c, r)" by (cases x)
    from packets_Cons [OF Cons [unfolded x]]
    have c: "c = addr" and lt: "addr < offset heap + size_h heap"
      and rd: "flashheap_packet_read heap addr = Some r"
      and ys: "ys = packets w heap (addr + \<bar>r\<bar> + sizeof_packet w)" by simp_all
    from "1.prems" Cons x c have "b = addr \<or> (b, q) \<in> set ys" by auto
    then show ?thesis
    proof
      assume "b = addr" then show ?thesis by simp
    next
      assume "(b, q) \<in> set ys"
      with "1.IH" [OF lt rd] ys have "addr + \<bar>r\<bar> + sizeof_packet w \<le> b" by simp
      with sizeof_packet_pos [of w] show ?thesis by linarith
    qed
  qed
qed

lemma free_scan_packets:
  "packets w heap addr = xs @ (ptr, p) # ys \<Longrightarrow>
   free_scan w heap ptr pa ps pk addr =
     Stop ptr (if xs = [] then pa else fst (last xs)) (if xs = [] then ps else snd (last xs))
       (Some p)"
proof (induction xs arbitrary: addr pa ps pk)
  case Nil
  then have "packets w heap addr = (ptr, p) # ys" by simp
  from packets_Cons [OF this] have "ptr = addr" "addr < offset heap + size_h heap"
    "flashheap_packet_read heap addr = Some p" by simp_all
  then show ?case
    by (simp add: free_scan.simps [of w heap addr pa ps pk addr])
next
  case (Cons x xs)
  obtain a q where x: "x = (a, q)" by (cases x)
  from Cons.prems x have pk: "packets w heap addr = (a, q) # (xs @ (ptr, p) # ys)" by simp
  from packets_Cons [OF pk] have a: "a = addr" and lt: "addr < offset heap + size_h heap"
    and rd: "flashheap_packet_read heap addr = Some q"
    and rest: "packets w heap (addr + \<bar>q\<bar> + sizeof_packet w) = xs @ (ptr, p) # ys"
    by simp_all
  have "(ptr, p) \<in> set (packets w heap (addr + \<bar>q\<bar> + sizeof_packet w))"
    by (simp add: rest)
  from packets_ge [OF this] sizeof_packet_pos [of w] have ne: "addr \<noteq> ptr" by linarith
  have "free_scan w heap ptr pa ps pk addr =
          free_scan w heap ptr addr q (Some q) (addr + \<bar>q\<bar> + sizeof_packet w)"
    by (simp add: free_scan.simps [of w heap ptr pa ps pk addr] lt rd ne)
  also have "\<dots> = Stop ptr (if xs = [] then addr else fst (last xs))
       (if xs = [] then q else snd (last xs)) (Some p)"
    by (rule Cons.IH [OF rest])
  finally show ?case using x a by simp
qed

lemma free_found:
  assumes pk: "packets w heap (offset heap) = xs @ (ptr, p) # ys"
  shows "flashheap_free w heap ptr =
     (if p < 0 then Some (False, heap)
      else (case flashheap_packet_read heap (ptr + p + sizeof_packet w) of
              None \<Rightarrow> Some (False, heap)
            | Some n \<Rightarrow>
                let (a, v) = coalesce w ptr (- p) (if xs = [] then 0 else fst (last xs))
                               (if xs = [] then 0 else snd (last xs)) n;
                    (d, ok) = packet_write heap a v
                in Some (ok, heap\<lparr>dev := d\<rparr>)))"
  by (simp add: flashheap_free_def free_scan_packets [OF pk] Let_def)

lemma alloc_scan_first_fit:
  "alloc_scan w heap sz addr =
     (case first_fit sz (packets w heap addr) of
        None \<Rightarrow> (0, heap)
      | Some (a, p) \<Rightarrow> alloc_at w heap sz a p)"
proof (induction w heap sz addr rule: alloc_scan.induct)
  case (1 w heap sz addr)
  show ?case
  proof (cases "addr < offset heap + size_h heap")
    case False
    then show ?thesis
      by (simp add: alloc_scan.simps [of w heap sz addr] packets.simps [of w heap addr]
          first_fit_def)
  next
    case lt: True
    show ?thesis
    proof (cases "flashheap_packet_read heap addr")
      case None
      with lt show ?thesis
        by (simp add: alloc_scan.simps [of w heap sz addr] packets.simps [of w heap addr]
            first_fit_def)
    next
      case (Some p)
      show ?thesis
      proof (cases "p < 0 \<and> sz \<le> - p")
        case True
        with lt Some show ?thesis
          by (simp add: alloc_scan.simps [of w heap sz addr] packets.simps [of w heap addr]
              first_fit_def)
      next
        case False
        have a: "alloc_scan w heap sz addr =
                   alloc_scan w heap sz (addr + \<bar>p\<bar> + sizeof_packet w)"
          using lt Some False by (auto simp add: alloc_scan.simps [of w heap sz addr])
        have b: "first_fit sz (packets w heap addr) =
                   first_fit sz (packets w heap (addr + \<bar>p\<bar> + sizeof_packet w))"
          using lt Some False by (auto simp add: packets.simps [of w heap addr] first_fit_def)
        show ?thesis
          unfolding a b by (rule "1.IH" [OF lt Some False])
      qed
    qed
  qed
qed

lemma coalesce_merged:
  assumes "0 \<le> p"
  shows "coalesce w ptr (- p) (if xs = [] then 0 else fst (last xs))
           (if xs = [] then 0 else snd (last xs)) n =
         (case merged_packet w (left_neighbour xs) (ptr, p) n of (a, m) \<Rightarrow> (a, - m))"
  using assms
  by (cases "last xs")
     (auto simp add: coalesce_def merged_packet_def left_neighbour_def Let_def)

lemma free_allocated:
  assumes pk: "packets w heap (offset heap) = xs @ (ptr, p) # ys" and p: "0 \<le> p"
  shows "flashheap_free w heap ptr =
     (case flashheap_packet_read heap (ptr + p + sizeof_packet w) of
        None \<Rightarrow> Some (False, heap)
      | Some n \<Rightarrow>
          (case merged_packet w (left_neighbour xs) (ptr, p) n of
             (a, m) \<Rightarrow>
               (case packet_write heap a (- m) of
                  (d, ok) \<Rightarrow> Some (ok, heap\<lparr>dev := d\<rparr>))))"
proof (cases "flashheap_packet_read heap (ptr + p + sizeof_packet w)")
  case None
  with p show ?thesis by (simp add: free_found [OF pk])
next
  case (Some n)
  obtain a m where am: "merged_packet w (left_neighbour xs) (ptr, p) n = (a, m)"
    by (cases "merged_packet w (left_neighbour xs) (ptr, p) n")
  have "coalesce w ptr (- p) (if xs = [] then 0 else fst (last xs))
           (if xs = [] then 0 else snd (last xs)) n = (a, - m)"
    by (simp add: coalesce_merged [OF p] am)
  with p Some am show ?thesis
    by (simp add: free_found [OF pk] split: prod.splits)
qed

lemma packets_append:
  "packets w heap a = xs @ (b, q) # ys \<Longrightarrow>
     packets w heap b = (b, q) # ys \<and>
     (xs \<noteq> [] \<longrightarrow> fst (last xs) + \<bar>snd (last xs)\<bar> + sizeof_packet w = b)"
proof (induction xs arbitrary: a)
  case Nil
  then have "packets w heap a = (b, q) # ys" by simp
  from packets_Cons [OF this] this show ?case by simp
next
  case (Cons x xs)
  obtain c r where x: "x = (c, r)" by (cases x)
  from Cons.prems x have "packets w heap a = (c, r) # (xs @ (b, q) # ys)" by simp
  from packets_Cons [OF this]
  have c: "c = a" and rest: "packets w heap (a + \<bar>r\<bar> + sizeof_packet w) = xs @ (b, q) # ys"
    by simp_all
  from Cons.IH [OF rest] have ih: "packets w heap b = (b, q) # ys"
    "xs \<noteq> [] \<longrightarrow> fst (last xs) + \<bar>snd (last xs)\<bar> + sizeof_packet w = b" by simp_all
  show ?case
  proof (cases "xs = []")
    case True
    with rest have "packets w heap (a + \<bar>r\<bar> + sizeof_packet w) = (b, q) # ys" by simp
    from packets_Cons [OF this] have "b = a + \<bar>r\<bar> + sizeof_packet w" by simp
    with ih True x c show ?thesis by simp
  next
    case False
    with ih x show ?thesis by simp
  qed
qed

lemma scenario_fields:
  "read_op scenario = ram_read Int16 2048 \<and> write_op scenario = ram_write Int16 2048"
  by (simp add: scenario_def ram_heap_def flashheap_init_def)

lemma erase_fields:
  "read_op (snd (flashheap_erase w heap)) = read_op heap \<and>
   write_op (snd (flashheap_erase w heap)) = write_op heap \<and>
   offset (snd (flashheap_erase w heap)) = offset heap \<and>
   size_h (snd (flashheap_erase w heap)) = size_h heap"
  by (simp add: flashheap_erase_def split: prod.splits)

subsection \<open>The RAM disk keeps what the allocator expects of a device\<close>

lemma length_le_bytes: "length (le_bytes n v) = n"
  by (induction n arbitrary: v) simp_all

lemma le_value_le_bytes: "le_value (le_bytes n v) = v mod 256 ^ n"
proof (induction n arbitrary: v)
  case 0
  show ?case by simp
next
  case (Suc n)
  have "uint (word_of_int v :: 8 word) = v mod 256"
    by (simp add: uint_word_of_int)
  then have "le_value (le_bytes (Suc n) v) = v mod 256 + 256 * (v div 256 mod 256 ^ n)"
    by (simp add: Suc.IH)
  also have "\<dots> = v mod (256 * 256 ^ n)"
    by (simp add: zmod_zmult2_eq)
  finally show ?case by simp
qed

lemma header_value_le_bytes:
  assumes "fits w v"
  shows "header_value w (le_bytes (nbytes w) v) = v"
proof -
  define m :: int where "m = 2 ^ (8 * nbytes w - 1)"
  have pos: "0 < nbytes w" by (cases w) simp_all
  then have "8 * nbytes w = Suc (8 * nbytes w - 1)" by simp
  then have "(2::int) ^ (8 * nbytes w) = 2 * 2 ^ (8 * nbytes w - 1)"
    by (metis power_Suc)
  then have two: "(2::int) ^ (8 * nbytes w) = 2 * m" by (simp add: m_def)
  have "(256::int) ^ nbytes w = (2 ^ 8) ^ nbytes w" by simp
  also have "\<dots> = 2 ^ (8 * nbytes w)" by (simp only: power_mult)
  finally have p256: "(256::int) ^ nbytes w = 2 * m" using two by simp
  from assms have range: "- m \<le> v" "v < m" by (simp_all add: fits_def m_def)
  have mpos: "0 < m" by (simp add: m_def)
  have hv: "header_value w (le_bytes (nbytes w) v) =
              (if v mod (2 * m) \<ge> m then v mod (2 * m) - 2 * m else v mod (2 * m))"
    unfolding header_value_def Let_def le_value_le_bytes p256 two m_def [symmetric] ..
  show ?thesis
  proof (cases "0 \<le> v")
    case True
    with range mpos have "v mod (2 * m) = v" by simp
    with range show ?thesis by (simp add: hv)
  next
    case False
    with range mpos have "v mod (2 * m) = v + 2 * m"
      by (smt (verit) mod_add_self2 mod_pos_pos_trivial)
    with range False show ?thesis by (simp add: hv)
  qed
qed

lemma ram_store_ok:
  assumes "read_op heap = ram_read w n" and "write_op heap = ram_write w n"
  shows "store_ok w heap"
  unfolding store_ok_def
proof (intro allI impI)
  fix d a v d'
  assume wr: "write_op heap d a v = (d', True)" and fit: "fits w v"
  define k where "k = nbytes w"
  have kpos: "0 < k" by (cases w) (simp_all add: k_def)
  from wr have inr: "\<not> (a < 0 \<or> a + int k > n)"
    and d': "d' = (\<lambda>x. if a \<le> x \<and> x < a + int k then le_bytes k v ! nat (x - a) else d x)"
    using kpos
    by (auto simp add: assms ram_write_def ram_msd_write_def k_def split: if_splits)
  have bytes: "map (\<lambda>i. d' (a + int i)) [0..<k] = le_bytes k v"
    by (rule nth_equalityI) (simp_all add: length_le_bytes d')
  have rd: "read_op heap d' a = Some v"
    using inr by (simp add: assms ram_read_def ram_msd_read_def k_def [symmetric] bytes)
       (simp add: k_def header_value_le_bytes [OF fit])
  have frame: "read_op heap d' b = read_op heap d b"
    if "b + sizeof_packet w \<le> a \<or> a + sizeof_packet w \<le> b" for b
  proof -
    from that have eq: "map (\<lambda>i. d' (b + int i)) [0..<k] = map (\<lambda>i. d (b + int i)) [0..<k]"
      by (auto simp add: d' sizeof_packet_def k_def)
    show ?thesis
      by (simp add: assms ram_read_def ram_msd_read_def k_def [symmetric] eq)
  qed
  show "read_op heap d' a = Some v \<and>
        (\<forall>b. b + sizeof_packet w \<le> a \<or> a + sizeof_packet w \<le> b \<longrightarrow>
           read_op heap d' b = read_op heap d b)"
    using rd frame by blast
qed

lemma ram_write_atomic:
  assumes "write_op heap = ram_write w n"
  shows "write_atomic heap"
  by (auto simp add: write_atomic_def assms ram_write_def ram_msd_write_def split: if_splits)

subsection \<open>Writes and what is read after them\<close>

lemma store_ok_read:
  assumes "store_ok w heap" and "write_op heap d0 a v = (d, True)" and "fits w v"
  shows "read_op heap d a = Some v"
  using assms unfolding store_ok_def by blast

lemma store_ok_frame:
  assumes "store_ok w heap" and "write_op heap d0 a v = (d, True)" and "fits w v"
    and "b + sizeof_packet w \<le> a \<or> a + sizeof_packet w \<le> b"
  shows "read_op heap d b = read_op heap d0 b"
  using assms unfolding store_ok_def by blast

lemma alloc_at_success:
  assumes "alloc_at w heap sz a p = (r, heap')" and "r \<noteq> 0"
  shows "\<exists>d1 d2.
           (if sz \<noteq> - p
            then write_op heap (dev heap) (a + sizeof_packet w + sz)
                   (- (- p - sz - sizeof_packet w))
            else (dev heap, True)) = (d1, True) \<and>
           write_op heap d1 a sz = (d2, True) \<and> r = a \<and>
           heap' = heap\<lparr>dev := d2, last_h := a\<rparr>"
  using assms
  by (auto simp add: alloc_at_def Let_def split: prod.splits if_splits)

lemma alloc_success:
  assumes "flashheap_alloc w heap sz = (r, heap')" and "r \<noteq> 0"
  shows "\<exists>a p. first_fit sz (packets w heap (offset heap)) = Some (a, p) \<and>
           alloc_at w heap sz a p = (r, heap')"
  using assms
  by (auto simp add: flashheap_alloc_def alloc_scan_first_fit split: option.splits)

lemma erase_result:
  "flashheap_erase w heap = (ok, heap') \<Longrightarrow>
     write_op heap (dev heap) (offset heap) (- (size_h heap - sizeof_packet w)) = (dev heap', ok)
     \<and> heap' = heap\<lparr>dev := dev heap'\<rparr>"
  by (auto simp add: flashheap_erase_def split: prod.splits)

lemma alloc_fields:
  "read_op (snd (flashheap_alloc w heap sz)) = read_op heap \<and>
   write_op (snd (flashheap_alloc w heap sz)) = write_op heap \<and>
   offset (snd (flashheap_alloc w heap sz)) = offset heap \<and>
   size_h (snd (flashheap_alloc w heap sz)) = size_h heap"
  by (simp add: flashheap_alloc_def alloc_scan_first_fit alloc_at_def Let_def
      split: option.splits prod.splits)

lemma packets_outside: "\<not> c < offset heap + size_h heap \<Longrightarrow> packets w heap c = []"
  by (simp add: packets.simps [of w heap c])

lemma packets_step:
  "c < offset heap + size_h heap \<Longrightarrow> flashheap_packet_read heap c = Some q \<Longrightarrow>
     packets w heap c = (c, q) # packets w heap (c + \<bar>q\<bar> + sizeof_packet w)"
  by (simp add: packets.simps [of w heap c])

lemma packets_cong_from:
  assumes "\<forall>b\<ge>c. flashheap_packet_read h' b = flashheap_packet_read h b"
    and "offset h' + size_h h' = offset h + size_h h"
  shows "packets w h' c = packets w h c"
  using assms
proof (induction w h c rule: packets.induct)
  case (1 w h c)
  show ?case
  proof (cases "c < offset h + size_h h")
    case False
    with "1.prems" show ?thesis by (simp add: packets_outside)
  next
    case lt: True
    from "1.prems" have rd: "flashheap_packet_read h' c = flashheap_packet_read h c" by simp
    show ?thesis
    proof (cases "flashheap_packet_read h c")
      case None
      with lt rd "1.prems" show ?thesis
        by (simp add: packets.simps [of w h c] packets.simps [of w h' c])
    next
      case (Some q)
      from sizeof_packet_pos [of w] have "c \<le> c + \<bar>q\<bar> + sizeof_packet w" by linarith
      with "1.prems" have
        "\<forall>b\<ge>c + \<bar>q\<bar> + sizeof_packet w. flashheap_packet_read h' b = flashheap_packet_read h b"
        by auto
      from "1.IH" [OF lt Some this "1.prems"(2)] lt Some rd "1.prems"(2) show ?thesis
        by (simp add: packets_step)
    qed
  qed
qed

lemma packets_prefix_cong:
  assumes "packets w h c = xs @ (t, q) # ys"
    and "\<forall>b. b + sizeof_packet w \<le> t \<longrightarrow> flashheap_packet_read h' b = flashheap_packet_read h b"
    and "offset h' + size_h h' = offset h + size_h h"
  shows "packets w h' c = xs @ packets w h' t"
  using assms(1)
proof (induction xs arbitrary: c)
  case Nil
  then have "packets w h c = (t, q) # ys" by simp
  from packets_Cons [OF this] show ?case by simp
next
  case (Cons x xs)
  obtain a r where x: "x = (a, r)" by (cases x)
  from Cons.prems x have pk: "packets w h c = (a, r) # (xs @ (t, q) # ys)" by simp
  from packets_Cons [OF pk] have a: "a = c" and lt: "c < offset h + size_h h"
    and rd: "flashheap_packet_read h c = Some r"
    and rest: "packets w h (c + \<bar>r\<bar> + sizeof_packet w) = xs @ (t, q) # ys" by simp_all
  have "(t, q) \<in> set (packets w h (c + \<bar>r\<bar> + sizeof_packet w))" by (simp add: rest)
  from packets_ge [OF this] have "c + sizeof_packet w \<le> t" by linarith
  with assms(2) rd have rd': "flashheap_packet_read h' c = Some r" by simp
  from lt assms(3) have lt': "c < offset h' + size_h h'" by simp
  from Cons.IH [OF rest] packets_step [OF lt' rd'] x a show ?case by simp
qed

lemma packets_write:
  assumes ok: "store_ok w heap" and fit: "fits w v"
    and wr: "write_op heap (dev heap) t v = (d, True)"
    and pk: "packets w heap c = pre @ (t, q) # post"
  shows "packets w (heap\<lparr>dev := d\<rparr>) c =
           pre @ (t, v) # packets w heap (t + \<bar>v\<bar> + sizeof_packet w)"
proof -
  let ?h = "heap\<lparr>dev := d\<rparr>"
  have rd: "flashheap_packet_read ?h t = Some v"
    using store_ok_read [OF ok wr fit] by (simp add: flashheap_packet_read_def)
  have frame: "flashheap_packet_read ?h b = flashheap_packet_read heap b"
    if "b + sizeof_packet w \<le> t \<or> t + sizeof_packet w \<le> b" for b
    using store_ok_frame [OF ok wr fit that] by (simp add: flashheap_packet_read_def)
  have e: "offset ?h + size_h ?h = offset heap + size_h heap" by simp
  from packets_append [OF pk] have "packets w heap t = (t, q) # post" by simp
  from packets_Cons [OF this] have lt: "t < offset ?h + size_h ?h" by simp
  have 1: "packets w ?h c = pre @ packets w ?h t"
    by (rule packets_prefix_cong [OF pk _ e]) (simp add: frame)
  have 2: "packets w ?h t = (t, v) # packets w ?h (t + \<bar>v\<bar> + sizeof_packet w)"
    by (rule packets_step [OF lt rd])
  have 3: "packets w ?h (t + \<bar>v\<bar> + sizeof_packet w) =
           packets w heap (t + \<bar>v\<bar> + sizeof_packet w)"
  proof (rule packets_cong_from [OF _ e], intro allI impI)
    fix b assume "t + \<bar>v\<bar> + sizeof_packet w \<le> b"
    then have "t + sizeof_packet w \<le> b" by linarith
    then show "flashheap_packet_read ?h b = flashheap_packet_read heap b"
      by (simp add: frame)
  qed
  from 1 2 3 show ?thesis by simp
qed

lemma first_fit_Some:
  "first_fit sz ps = Some (a, p) \<Longrightarrow>
     p < 0 \<and> sz \<le> - p \<and> (\<exists>pre post. ps = pre @ (a, p) # post)"
proof -
  assume "first_fit sz ps = Some (a, p)"
  then obtain i where "i < length ps" "ps ! i = (a, p)" "p < 0 \<and> sz \<le> - p"
    by (auto simp add: first_fit_def find_Some_iff)
  moreover from this have "(a, p) \<in> set ps" by (metis nth_mem)
  ultimately show ?thesis by (auto dest: split_list)
qed


lemma fits_between: "fits w (- c) \<Longrightarrow> - c \<le> v \<Longrightarrow> v < c \<Longrightarrow> fits w v"
  by (auto simp add: fits_def)

lemma packets_last_h [simp]: "packets w (heap\<lparr>last_h := a\<rparr>) c = packets w heap c"
  by (rule packets_cong_from) (simp_all add: flashheap_packet_read_def)

lemma packets_write_inside:
  assumes ok: "store_ok w heap" and fit: "fits w v"
    and wr: "write_op heap (dev heap) u v = (d, True)"
    and pk: "packets w heap c = pre @ (a, q) # post"
    and lo: "a + sizeof_packet w \<le> u"
    and hi: "u + sizeof_packet w \<le> a + \<bar>q\<bar> + sizeof_packet w"
  shows "packets w (heap\<lparr>dev := d\<rparr>) c = pre @ (a, q) # post"
proof -
  let ?h = "heap\<lparr>dev := d\<rparr>"
  have frame: "flashheap_packet_read ?h b = flashheap_packet_read heap b"
    if "b + sizeof_packet w \<le> u \<or> u + sizeof_packet w \<le> b" for b
    using store_ok_frame [OF ok wr fit that] by (simp add: flashheap_packet_read_def)
  have e: "offset ?h + size_h ?h = offset heap + size_h heap" by simp
  from packets_append [OF pk] have pa: "packets w heap a = (a, q) # post" by simp
  from packets_Cons [OF pa] have lt: "a < offset ?h + size_h ?h"
    and rd: "flashheap_packet_read heap a = Some q"
    and post: "post = packets w heap (a + \<bar>q\<bar> + sizeof_packet w)" by simp_all
  from sizeof_packet_pos [of w] lo have "a + sizeof_packet w \<le> u \<or> u + sizeof_packet w \<le> a"
    by linarith
  from frame [of a] lo rd have rd': "flashheap_packet_read ?h a = Some q" by simp
  have 1: "packets w ?h c = pre @ packets w ?h a"
  proof (rule packets_prefix_cong [OF pk _ e], intro allI impI)
    fix b assume "b + sizeof_packet w \<le> a"
    with lo sizeof_packet_pos [of w] have "b + sizeof_packet w \<le> u" by linarith
    then show "flashheap_packet_read ?h b = flashheap_packet_read heap b"
      by (simp add: frame)
  qed
  have 2: "packets w ?h a = (a, q) # packets w ?h (a + \<bar>q\<bar> + sizeof_packet w)"
    by (rule packets_step [OF lt rd'])
  have 3: "packets w ?h (a + \<bar>q\<bar> + sizeof_packet w) =
           packets w heap (a + \<bar>q\<bar> + sizeof_packet w)"
  proof (rule packets_cong_from [OF _ e], intro allI impI)
    fix b assume "a + \<bar>q\<bar> + sizeof_packet w \<le> b"
    with hi have "u + sizeof_packet w \<le> b" by linarith
    then show "flashheap_packet_read ?h b = flashheap_packet_read heap b"
      by (simp add: frame)
  qed
  from 1 2 3 post show ?thesis by simp
qed

lemma alloc_at_split_success:
  assumes al: "alloc_at w heap sz a (- c) = (r, heap')" and r: "r \<noteq> 0" and ne: "sz \<noteq> c"
  shows "\<exists>d1 d2.
           write_op heap (dev heap) (a + sizeof_packet w + sz)
             (- (c - sz - sizeof_packet w)) = (d1, True) \<and>
           write_op heap d1 a sz = (d2, True) \<and> r = a \<and>
           heap' = heap\<lparr>dev := d2, last_h := a\<rparr>"
proof -
  from alloc_at_success [OF al r] obtain d1 d2 where
    1: "(if sz \<noteq> - (- c)
         then write_op heap (dev heap) (a + sizeof_packet w + sz)
                (- (- (- c) - sz - sizeof_packet w))
         else (dev heap, True)) = (d1, True)"
    and 2: "write_op heap d1 a sz = (d2, True)" "r = a"
      "heap' = heap\<lparr>dev := d2, last_h := a\<rparr>"
    by blast
  from 1 ne have "write_op heap (dev heap) (a + sizeof_packet w + sz)
             (- (c - sz - sizeof_packet w)) = (d1, True)" by simp
  with 2 show ?thesis by blast
qed

lemma packets_single:
  assumes rd: "flashheap_packet_read h (offset h) = Some (- (size_h h - sizeof_packet w))"
    and big: "sizeof_packet w \<le> size_h h"
  shows "packets w h (offset h) = [(offset h, - (size_h h - sizeof_packet w))]"
proof -
  have lt: "offset h < offset h + size_h h" using big sizeof_packet_pos [of w] by linarith
  have "offset h + \<bar>- (size_h h - sizeof_packet w)\<bar> + sizeof_packet w = offset h + size_h h"
    using big by linarith
  with packets_step [OF lt rd, of w] show ?thesis
    by (simp add: packets_outside)
qed

lemma scenario_store_ok:
  "store_ok Int16 scenario \<and> store_ok Int16 erased \<and> store_ok Int16 alloc30 \<and>
   store_ok Int16 alloc20"
  by (intro conjI; rule ram_store_ok [of _ Int16 2048])
     (simp_all add: alloc20_def alloc30_def alloc_fields erased_def erase_fields scenario_fields)

subsection \<open>Coalescing on the sequence of packets\<close>

lemma no_adjacent_free_Cons:
  "no_adjacent_free ((a, p) # ps) = (\<not> (p < 0 \<and> free_hd ps) \<and> no_adjacent_free ps)"
  by (cases ps) (auto simp add: free_hd_def)

lemma no_adjacent_free_append:
  "no_adjacent_free (xs @ ys) =
     (no_adjacent_free xs \<and> no_adjacent_free ys \<and> \<not> (free_last xs \<and> free_hd ys))"
proof (induction xs)
  case Nil
  show ?case by (simp add: free_last_def)
next
  case (Cons x xs)
  obtain a p where x: "x = (a, p)" by (cases x)
  show ?case
  proof (cases "xs = []")
    case True
    then show ?thesis by (auto simp add: x no_adjacent_free_Cons free_last_def)
  next
    case False
    then obtain b q zs where xs: "xs = (b, q) # zs" by (cases xs) auto
    have "free_hd (xs @ ys) = free_hd xs" by (simp add: xs free_hd_def)
    moreover have "free_last (x # xs) = free_last xs" using False by (simp add: free_last_def)
    ultimately show ?thesis
      using Cons.IH by (auto simp add: x no_adjacent_free_Cons)
  qed
qed


lemma merged_reach:
  assumes pk: "packets w heap c = xs @ (ptr, p) # ys" and p: "0 \<le> p"
    and am: "merged_packet w (left_neighbour xs) (ptr, p) n = (a, m)"
  shows "0 \<le> m \<and>
         a + m + sizeof_packet w =
           ptr + p + sizeof_packet w + (if n < 0 then \<bar>n\<bar> + sizeof_packet w else 0) \<and>
         (\<exists>pre q post. xs @ (ptr, p) # ys = pre @ (a, q) # post \<and>
            (no_adjacent_free (xs @ (ptr, p) # ys) \<longrightarrow>
               no_adjacent_free pre \<and> \<not> free_last pre))"
proof (cases xs rule: rev_cases)
  case Nil
  with am p have a: "a = ptr" and m: "m = p + (if n < 0 then \<bar>n\<bar> + sizeof_packet w else 0)"
    by (auto simp add: merged_packet_def left_neighbour_def Let_def split: if_splits)
  have "xs @ (ptr, p) # ys = [] @ (a, p) # ys \<and>
          (no_adjacent_free (xs @ (ptr, p) # ys) \<longrightarrow> no_adjacent_free [] \<and> \<not> free_last [])"
    by (simp add: Nil a free_last_def)
  then have "\<exists>pre q post. xs @ (ptr, p) # ys = pre @ (a, q) # post \<and>
            (no_adjacent_free (xs @ (ptr, p) # ys) \<longrightarrow>
               no_adjacent_free pre \<and> \<not> free_last pre)"
    by blast
  with a m p sizeof_packet_pos [of w] show ?thesis by auto
next
  case (snoc bl l)
  obtain la lq where l: "l = (la, lq)" by (cases l)
  from packets_append [OF pk] snoc l
  have chain: "la + \<bar>lq\<bar> + sizeof_packet w = ptr" by simp
  show ?thesis
  proof (cases "lq < 0")
    case True
    with am p snoc l have a: "a = la"
      and m: "m = \<bar>lq\<bar> + p + sizeof_packet w + (if n < 0 then \<bar>n\<bar> + sizeof_packet w else 0)"
      by (auto simp add: merged_packet_def left_neighbour_def Let_def split: if_splits)
    have "xs @ (ptr, p) # ys = bl @ (a, lq) # (ptr, p) # ys \<and>
          (no_adjacent_free (xs @ (ptr, p) # ys) \<longrightarrow> no_adjacent_free bl \<and> \<not> free_last bl)"
      using True by (simp add: snoc l a no_adjacent_free_append no_adjacent_free_Cons free_hd_def)
    then have "\<exists>pre q post. xs @ (ptr, p) # ys = pre @ (a, q) # post \<and>
            (no_adjacent_free (xs @ (ptr, p) # ys) \<longrightarrow>
               no_adjacent_free pre \<and> \<not> free_last pre)"
      by blast
    moreover have "0 \<le> m" using m p sizeof_packet_pos [of w] by (simp split: if_splits)
    moreover have "a + m + sizeof_packet w =
           ptr + p + sizeof_packet w + (if n < 0 then \<bar>n\<bar> + sizeof_packet w else 0)"
      using a m chain by (simp split: if_splits)
    ultimately show ?thesis by blast
  next
    case False
    with am p snoc l have a: "a = ptr"
      and m: "m = p + (if n < 0 then \<bar>n\<bar> + sizeof_packet w else 0)"
      by (auto simp add: merged_packet_def left_neighbour_def Let_def split: if_splits)
    have "\<not> free_last xs" using False by (simp add: snoc l free_last_def)
    moreover have "no_adjacent_free (xs @ (ptr, p) # ys) \<longrightarrow> no_adjacent_free xs"
      by (simp add: no_adjacent_free_append)
    ultimately have "xs @ (ptr, p) # ys = xs @ (a, p) # ys \<and>
          (no_adjacent_free (xs @ (ptr, p) # ys) \<longrightarrow> no_adjacent_free xs \<and> \<not> free_last xs)"
      by (simp add: a)
    then have "\<exists>pre q post. xs @ (ptr, p) # ys = pre @ (a, q) # post \<and>
            (no_adjacent_free (xs @ (ptr, p) # ys) \<longrightarrow>
               no_adjacent_free pre \<and> \<not> free_last pre)"
      by blast
    moreover have "0 \<le> m" using m p sizeof_packet_pos [of w] by (simp split: if_splits)
    moreover have "a + m + sizeof_packet w =
           ptr + p + sizeof_packet w + (if n < 0 then \<bar>n\<bar> + sizeof_packet w else 0)"
      using a m by (simp split: if_splits)
    ultimately show ?thesis by blast
  qed
qed

lemma right_part:
  assumes pk: "packets w heap c = xs @ (ptr, p) # ys" and p: "0 \<le> p"
    and rd: "flashheap_packet_read heap (ptr + p + sizeof_packet w) = Some n"
    and adj: "no_adjacent_free (xs @ (ptr, p) # ys)"
  defines "r \<equiv> packets w heap
       (ptr + p + sizeof_packet w + (if n < 0 then \<bar>n\<bar> + sizeof_packet w else 0))"
  shows "no_adjacent_free r \<and> \<not> free_hd r"
proof -
  define na where "na = ptr + p + sizeof_packet w"
  from packets_append [OF pk] have "packets w heap ptr = (ptr, p) # ys" by simp
  from packets_Cons [OF this] p have ys: "ys = packets w heap na"
    unfolding na_def by simp
  from adj have adj_ys: "no_adjacent_free ys" "\<not> (p < 0 \<and> free_hd ys)"
    by (simp_all add: no_adjacent_free_append no_adjacent_free_Cons)
  have rd': "flashheap_packet_read heap na = Some n" using rd unfolding na_def .
  show ?thesis
  proof (cases "n < 0")
    case False
    then have r: "r = ys" unfolding r_def ys na_def by simp
    have "\<not> free_hd ys"
    proof (cases ys)
      case Nil
      then show ?thesis by (simp add: free_hd_def)
    next
      case (Cons y zs)
      obtain b q where y: "y = (b, q)" by (cases y)
      from Cons y ys have "packets w heap na = (b, q) # zs" by simp
      from packets_Cons [OF this] rd' have "q = n" by simp
      with False show ?thesis by (simp add: Cons y free_hd_def)
    qed
    with adj_ys r show ?thesis by simp
  next
    case True
    then have r: "r = packets w heap (na + \<bar>n\<bar> + sizeof_packet w)"
      unfolding r_def na_def by simp
    show ?thesis
    proof (cases "na < offset heap + size_h heap")
      case lt: True
      from packets_step [OF lt rd', of w] ys r have "ys = (na, n) # r" by simp
      with adj_ys True show ?thesis by (simp add: no_adjacent_free_Cons)
    next
      case False
      with sizeof_packet_pos [of w]
      have "\<not> na + \<bar>n\<bar> + sizeof_packet w < offset heap + size_h heap" by linarith
      then have "r = []" unfolding r by (rule packets_outside)
      then show ?thesis by (simp add: free_hd_def)
    qed
  qed
qed

lemma free_result:
  "flashheap_free w heap ptr = Some (ok, heap') \<Longrightarrow> heap' = heap\<lparr>dev := dev heap'\<rparr>"
  by (auto simp add: flashheap_free_def Let_def
      split: scan.splits option.splits if_splits prod.splits)

subsection \<open>The search of flashheap_free\<close>

lemma free_scan_not_found:
  assumes "ptr \<notin> fst ` set (packets w heap addr)" and "walk_end w heap addr \<noteq> Some ptr"
  shows "case free_scan w heap ptr pa ps pk addr of
           Fault \<Rightarrow> True
         | Stop a _ _ _ \<Rightarrow> a \<noteq> ptr"
  using assms
proof (induction w heap ptr pa ps pk addr rule: free_scan.induct)
  case (1 w heap desired prev_addr prev_size packet addr)
  show ?case
  proof (cases "addr < offset heap + size_h heap")
    case False
    with "1.prems"(2) show ?thesis
      by (simp add: free_scan.simps [of w heap desired prev_addr prev_size packet addr]
          walk_end.simps [of w heap addr])
  next
    case lt: True
    show ?thesis
    proof (cases "flashheap_packet_read heap addr")
      case None
      with lt show ?thesis
        by (simp add: free_scan.simps [of w heap desired prev_addr prev_size packet addr])
    next
      case (Some p)
      from "1.prems"(1) lt Some have ne: "addr \<noteq> desired"
        and rest: "desired \<notin> fst ` set (packets w heap (addr + \<bar>p\<bar> + sizeof_packet w))"
        by (auto simp add: packets.simps [of w heap addr])
      from "1.prems"(2) lt Some
      have we: "walk_end w heap (addr + \<bar>p\<bar> + sizeof_packet w) \<noteq> Some desired"
        by (simp add: walk_end.simps [of w heap addr])
      from "1.IH" [OF lt Some ne rest we] lt Some ne show ?thesis
        by (simp add: free_scan.simps [of w heap desired prev_addr prev_size packet addr])
    qed
  qed
qed

lemma free_not_found:
  assumes "ptr \<notin> fst ` set (packets w heap (offset heap))"
    and "walk_end w heap (offset heap) \<noteq> Some ptr"
  shows "flashheap_free w heap ptr = Some (False, heap)"
  using free_scan_not_found [OF assms, of 0 0 None]
  by (simp add: flashheap_free_def split: scan.splits)

lemma free_at_most_one_write:
  assumes "flashheap_free w heap ptr = Some (ok, heap')"
  shows "(heap' = heap \<and> \<not> ok) \<or>
         (\<exists>a v. packet_write heap a v = (dev heap', ok) \<and> heap' = heap\<lparr>dev := dev heap'\<rparr>)"
  using assms
  by (auto simp add: flashheap_free_def Let_def
      split: scan.splits option.splits if_splits prod.splits)

lemma coalescing_rule_merged:
  "coalescing_rule w left cur (Some (b, n)) = merged_packet w left cur n"
  by (simp add: coalescing_rule_def merged_packet_def Let_def)

subsection \<open>First fit\<close>

text \<open>
  C5. \<open>flashheap_alloc\<close> takes the first packet of the sequence, from \<open>offset\<close>, that is free
  and has room for the requested size, whatever fits better further on: when the device
  takes the writes, it returns the address of that packet and records it in \<open>last\<close>. When
  the sequence has no such packet before the end of the region, it returns the null
  address and the heap is as before: nothing was written.
\<close>

theorem alloc_first_fit:
  "(first_fit sz (packets w heap (offset heap)) = None \<longrightarrow>
      flashheap_alloc w heap sz = (0, heap)) \<and>
   (\<forall>a p. first_fit sz (packets w heap (offset heap)) = Some (a, p) \<longrightarrow>
      (let r1 = (if sz \<noteq> - p
                 then write_op heap (dev heap) (a + sizeof_packet w + sz)
                        (- (- p - sz - sizeof_packet w))
                 else (dev heap, True));
           r2 = write_op heap (fst r1) a sz
       in flashheap_alloc w heap sz =
            (if snd r1 \<and> snd r2 then (a, heap\<lparr>dev := fst r2, last_h := a\<rparr>)
             else if snd r1 then (0, heap\<lparr>dev := fst r2\<rparr>)
             else (0, heap\<lparr>dev := fst r1\<rparr>))))"
  by (auto simp add: flashheap_alloc_def alloc_scan_first_fit alloc_at_def Let_def
      split: prod.splits)

theorem alloc_first_fit_witness:
  "first_fit 10 (packets Int16 fragmented (offset fragmented)) = Some (1000, - 50) \<and>
   packets Int16 fragmented (offset fragmented) =
     [(1000, - 50), (1052, 10), (1064, 20), (1086, - 12)] \<and>
   fst (flashheap_alloc Int16 fragmented 10) = 1000 \<and>
   last_h (snd (flashheap_alloc Int16 fragmented 10)) = 1000 \<and>
   first_fit 60 (packets Int16 fragmented (offset fragmented)) = None \<and>
   flashheap_alloc Int16 fragmented 60 = (0, fragmented)"
proof -
  have ps: "packets Int16 fragmented (offset fragmented) =
     [(1000, - 50), (1052, 10), (1064, 20), (1086, - 12)]"
    by code_simp
  have ff: "first_fit 10 (packets Int16 fragmented (offset fragmented)) = Some (1000, - 50)"
    unfolding ps by code_simp
  have none: "first_fit 60 (packets Int16 fragmented (offset fragmented)) = None"
    unfolding ps by code_simp
  have w1: "snd (write_op fragmented (dev fragmented) (1000 + sizeof_packet Int16 + 10)
                  (- (- (- 50) - 10 - sizeof_packet Int16)))"
    by code_simp
  have w2: "snd (write_op fragmented
               (fst (write_op fragmented (dev fragmented) (1000 + sizeof_packet Int16 + 10)
                  (- (- (- 50) - 10 - sizeof_packet Int16)))) 1000 10)"
    by code_simp
  from alloc_first_fit [of 10 Int16 fragmented] ff w1 w2
  have a: "fst (flashheap_alloc Int16 fragmented 10) = 1000 \<and>
           last_h (snd (flashheap_alloc Int16 fragmented 10)) = 1000"
    by (simp add: Let_def)
  from alloc_first_fit [of 60 Int16 fragmented] none
  have b: "flashheap_alloc Int16 fragmented 60 = (0, fragmented)" by simp
  from ps ff none a b show ?thesis by simp
qed

subsection \<open>Releasing the last packet\<close>

text \<open>
  C10. When the packet at the requested address is the last one, its payload ending on
  \<open>offset + size\<close>, \<open>flashheap_free\<close> reads a header at \<open>offset + size\<close>, outside the
  region: when the device does not deliver it the call fails, and otherwise the header
  read there is the right neighbour of the coalescing rule. When it is negative, the free
  packet that is written reaches \<open>sizeof (packet) + \<bar>header\<bar>\<close> bytes past the end of the
  region.
\<close>

theorem free_last_packet_reads_past_end:
  assumes pk: "packets w heap (offset heap) = xs @ [(ptr, p)]"
    and p: "0 \<le> p"
    and last: "ptr + p + sizeof_packet w = offset heap + size_h heap"
  shows "(case flashheap_packet_read heap (offset heap + size_h heap) of
            None \<Rightarrow> flashheap_free w heap ptr = Some (False, heap)
          | Some n \<Rightarrow>
              (case merged_packet w (left_neighbour xs) (ptr, p) n of
                 (a, m) \<Rightarrow>
                   flashheap_free w heap ptr =
                     Some (snd (packet_write heap a (- m)),
                           heap\<lparr>dev := fst (packet_write heap a (- m))\<rparr>) \<and>
                   (n < 0 \<longrightarrow>
                      a + sizeof_packet w + m =
                        offset heap + size_h heap + sizeof_packet w + \<bar>n\<bar>)))"
proof (cases "flashheap_packet_read heap (offset heap + size_h heap)")
  case None
  then show ?thesis
    by (simp add: free_allocated [OF pk p] last)
next
  case (Some n)
  obtain a m where am: "merged_packet w (left_neighbour xs) (ptr, p) n = (a, m)"
    by (cases "merged_packet w (left_neighbour xs) (ptr, p) n")
  have fr: "flashheap_free w heap ptr =
              Some (snd (packet_write heap a (- m)),
                    heap\<lparr>dev := fst (packet_write heap a (- m))\<rparr>)"
    by (simp add: free_allocated [OF pk p] last Some am split: prod.splits)
  have reach: "a + sizeof_packet w + m =
      offset heap + size_h heap + sizeof_packet w + \<bar>n\<bar>" if n: "n < 0"
  proof (cases "xs = []")
    case True
    with am n p last show ?thesis
      by (auto simp add: merged_packet_def left_neighbour_def Let_def)
  next
    case False
    from packets_append [OF pk] False
    have chain: "fst (last xs) + \<bar>snd (last xs)\<bar> + sizeof_packet w = ptr" by simp
    obtain pa q where lx: "last xs = (pa, q)" by (cases "last xs")
    from am n p last chain False lx show ?thesis
      by (auto simp add: merged_packet_def left_neighbour_def Let_def split: if_splits)
  qed
  from Some am fr reach show ?thesis by simp
qed

theorem free_last_packet_reads_past_end_witness:
  "packets Int16 full_on_flash (offset full_on_flash) = [] @ [(1000, 98)] \<and>
   flashheap_packet_read full_on_flash (offset full_on_flash + size_h full_on_flash)
     = Some (- 1) \<and>
   flashheap_free Int16 full_on_flash 1000 =
     Some (True, full_on_flash\<lparr>dev := fst (packet_write full_on_flash 1000 (- 101))\<rparr>) \<and>
   packets Int16 full_at_device_end (offset full_at_device_end) = [] @ [(1000, 98)] \<and>
   flashheap_free Int16 full_at_device_end 1000 = Some (False, full_at_device_end)"
proof -
  have pk: "packets Int16 full_on_flash (offset full_on_flash) = [] @ [(1000, 98)]"
    by code_simp
  have last: "1000 + 98 + sizeof_packet Int16 = offset full_on_flash + size_h full_on_flash"
    by code_simp
  have rd: "flashheap_packet_read full_on_flash (offset full_on_flash + size_h full_on_flash)
     = Some (- 1)"
    by code_simp
  have am: "merged_packet Int16 (left_neighbour []) (1000, 98) (- 1) = (1000, 101)"
    by code_simp
  have ok: "snd (packet_write full_on_flash 1000 (- 101))"
    by code_simp
  from free_last_packet_reads_past_end [OF pk _ last] rd am ok
  have a: "flashheap_free Int16 full_on_flash 1000 =
     Some (True, full_on_flash\<lparr>dev := fst (packet_write full_on_flash 1000 (- 101))\<rparr>)"
    by simp
  have pk': "packets Int16 full_at_device_end (offset full_at_device_end) = [] @ [(1000, 98)]"
    by code_simp
  have last': "1000 + 98 + sizeof_packet Int16 =
      offset full_at_device_end + size_h full_at_device_end"
    by code_simp
  have rd': "flashheap_packet_read full_at_device_end
      (offset full_at_device_end + size_h full_at_device_end) = None"
    by code_simp
  from free_last_packet_reads_past_end [OF pk' _ last'] rd'
  have b: "flashheap_free Int16 full_at_device_end 1000 = Some (False, full_at_device_end)"
    by simp
  from pk rd a pk' b show ?thesis by simp
qed

subsection \<open>Tiling\<close>

text \<open>
  C1. The region of the scenario is erased and 97 bytes are allocated from the free
  packet of 98 bytes. Both calls succeed. The remainder is one byte short of a header:
  the source computes the header \<open>- (98 - 97 - 2) = 1\<close> and writes it at address 1099, so
  the walk goes from 1000 to 1099 and on to 1102, past the end of the region at 1100.
\<close>

theorem alloc_remainder_breaks_tiling:
  "fst (flashheap_erase Int16 scenario) \<and> tiled Int16 erased \<and>
   fst (flashheap_alloc Int16 erased 97) = 1000 \<and>
   packets Int16 (snd (flashheap_alloc Int16 erased 97)) 1000 = [(1000, 97), (1099, 1)] \<and>
   walk_end Int16 (snd (flashheap_alloc Int16 erased 97)) 1000 = Some 1102 \<and>
   \<not> tiled Int16 (snd (flashheap_alloc Int16 erased 97))"
  by code_simp

subsection \<open>Releasing an address that is no packet\<close>

text \<open>
  C6. The region of the scenario holds one allocated packet of 98 bytes, so the only
  packet starts at 1000 and the region ends at 1100. The search of \<open>flashheap_free\<close> for
  address 1100 leaves its loop with \<open>addr = 1100\<close>, which passes the test
  \<open>addr != desired\<close>; the call goes on with the header of the packet read last, writes
  the header \<open>- 98\<close> at address 1100, outside the region, and returns success.
\<close>

theorem free_of_end_address_succeeds:
  "packets Int16 full (offset full) = [(1000, 98)] \<and>
   offset full + size_h full = 1100 \<and>
   map_option fst (flashheap_free Int16 full 1100) = Some True \<and>
   map_option (\<lambda>(ok, h). flashheap_packet_read h 1100) (flashheap_free Int16 full 1100)
     = Some (Some (- 98)) \<and>
   flashheap_packet_read full 1100 = Some 0"
  by code_simp

subsection \<open>Iterating over the allocated packets\<close>

text \<open>
  C7. After the two allocations of the scenario the allocated packets are at 1000 and
  1032. \<open>flashheap_alloc_next\<close> advances from 1000 by the payload length only, without
  \<open>sizeof (packet)\<close>, and walks from 1030, the last two bytes of the first payload: they
  are zero, which reads as an allocated packet, so the answer is 1030 and not 1032; and
  from 1030 the answer is 1030 again.
\<close>

theorem alloc_next_lands_in_payload:
  "packets Int16 alloc20 (offset alloc20) = [(1000, 30), (1032, 20), (1054, - 44)] \<and>
   flashheap_alloc_first Int16 alloc20 = 1000 \<and>
   flashheap_alloc_next Int16 alloc20 1000 = 1030 \<and>
   flashheap_alloc_next Int16 alloc20 1030 = 1030"
  by code_simp

subsection \<open>The size of an allocation\<close>

text \<open>
  C8. On a device that reads back what was written, when \<open>flashheap_alloc\<close> succeeds for a
  size that is not negative and that the header can hold, \<open>flashheap_alloc_size\<close> of the
  address that it returned, in the heap that it left, is that size.
  \<open>flashheap_alloc_size\<close> is the header at the address when it is not negative, and 0
  when it is negative or cannot be read.
\<close>

theorem alloc_size_of_alloc:
  assumes ok: "store_ok w heap" and fit: "fits w sz" and sz: "0 \<le> sz"
    and al: "flashheap_alloc w heap sz = (r, heap')" and r: "r \<noteq> 0"
  shows "flashheap_alloc_size heap' r = sz \<and>
         (\<forall>h a. flashheap_alloc_size h a =
            (case flashheap_packet_read h a of
               None \<Rightarrow> 0
             | Some p \<Rightarrow> if p < 0 then 0 else p))"
proof -
  from alloc_success [OF al r] obtain a p where
    "alloc_at w heap sz a p = (r, heap')" by blast
  from alloc_at_success [OF this r] obtain d1 d2 where
    w2: "write_op heap d1 a sz = (d2, True)" and ra: "r = a"
    and h': "heap' = heap\<lparr>dev := d2, last_h := a\<rparr>" by blast
  from store_ok_read [OF ok w2 fit] have "read_op heap d2 a = Some sz" .
  with h' ra sz have "flashheap_alloc_size heap' r = sz"
    by (simp add: flashheap_alloc_size_def flashheap_packet_read_def)
  then show ?thesis by (simp add: flashheap_alloc_size_def)
qed

theorem alloc_size_of_alloc_witness:
  "store_ok Int16 alloc30 \<and> fits Int16 20 \<and> (0::int) \<le> 20 \<and>
   fst (flashheap_alloc Int16 alloc30 20) = 1032 \<and>
   flashheap_alloc_size (snd (flashheap_alloc Int16 alloc30 20)) 1032 = 20"
proof -
  have ok: "store_ok Int16 alloc30"
    by (rule ram_store_ok [of _ Int16 2048])
       (simp_all add: alloc30_def alloc_fields erased_def erase_fields scenario_fields)
  have fit: "fits Int16 20" by code_simp
  have r: "fst (flashheap_alloc Int16 alloc30 20) = 1032" by code_simp
  then have al: "flashheap_alloc Int16 alloc30 20 = (1032, snd (flashheap_alloc Int16 alloc30 20))"
    by (simp add: prod_eq_iff)
  have sz: "(0::int) \<le> 20" and nz: "(1032::int) \<noteq> 0" by simp_all
  note alloc_size_of_alloc [OF ok fit sz al nz, THEN conjunct1]
  with ok fit r show ?thesis by simp
qed

subsection \<open>Splitting a free packet\<close>

text \<open>
  C3, as the source has it. The packet that \<open>flashheap_alloc\<close> selects is free with
  capacity \<open>c\<close>, and the requested size is not negative and leaves room for a header and
  at least one byte: \<open>size + sizeof (packet) < c\<close>. When the call succeeds, on a device
  that reads back what was written, it has written the header
  \<open>- (c - size - sizeof (packet))\<close> at \<open>address + sizeof (packet) + size\<close> and then the
  header \<open>size\<close> at the address of the packet, which it returns: the allocated packet is
  followed at once by a free packet of capacity \<open>c - size - sizeof (packet)\<close>, and when
  the old packet lay within the region these two take its place in the sequence.
\<close>

theorem alloc_split:
  assumes ok: "store_ok w heap"
    and ff: "first_fit sz (packets w heap (offset heap)) = Some (a, - c)"
    and fit: "fits w (- c)"
    and sz: "0 \<le> sz" and room: "sz + sizeof_packet w < c"
    and al: "flashheap_alloc w heap sz = (r, heap')" and r: "r \<noteq> 0"
  shows "r = a \<and>
         dev heap' =
           fst (write_op heap
                  (fst (write_op heap (dev heap) (a + sizeof_packet w + sz)
                          (- (c - sz - sizeof_packet w))))
                  a sz) \<and>
         flashheap_packet_read heap' a = Some sz \<and>
         flashheap_packet_read heap' (a + sizeof_packet w + sz)
           = Some (- (c - sz - sizeof_packet w)) \<and>
         - (c - sz - sizeof_packet w) < 0 \<and>
         (\<exists>pre post. packets w heap (offset heap) = pre @ (a, - c) # post \<and>
            (a + sizeof_packet w + c \<le> offset heap + size_h heap \<longrightarrow>
               packets w heap' (offset heap') =
                 pre @ (a, sz) # (a + sizeof_packet w + sz, - (c - sz - sizeof_packet w)) # post))"
proof -
  define hs where "hs = sizeof_packet w"
  define u where "u = a + hs + sz"
  define v where "v = - (c - sz - hs)"
  have hs: "0 < hs" unfolding hs_def by (rule sizeof_packet_pos)
  from first_fit_Some [OF ff] obtain pre post
    where pk: "packets w heap (offset heap) = pre @ (a, - c) # post" by blast
  from al ff have at: "alloc_at w heap sz a (- c) = (r, heap')"
    by (simp add: flashheap_alloc_def alloc_scan_first_fit)
  from room hs have ne: "sz \<noteq> c" unfolding hs_def by linarith
  from alloc_at_split_success [OF at r ne] obtain d1 d2
    where w1: "write_op heap (dev heap) u v = (d1, True)"
      and w2: "write_op heap d1 a sz = (d2, True)"
      and ra: "r = a" and h': "heap' = heap\<lparr>dev := d2, last_h := a\<rparr>"
    unfolding u_def v_def hs_def by blast
  have fv: "fits w v"
  proof (rule fits_between [OF fit])
    show "- c \<le> v" unfolding v_def using sz hs by linarith
    show "v < c" unfolding v_def using sz hs room [folded hs_def] by linarith
  qed
  have fs: "fits w sz"
  proof (rule fits_between [OF fit])
    show "- c \<le> sz" using sz hs room [folded hs_def] by linarith
    show "sz < c" using sz hs room [folded hs_def] by linarith
  qed
  have dev: "dev heap' = fst (write_op heap (fst (write_op heap (dev heap) u v)) a sz)"
    by (simp add: h' w1 w2)
  have rd_a: "flashheap_packet_read heap' a = Some sz"
    using store_ok_read [OF ok w2 fs] by (simp add: flashheap_packet_read_def h')
  have "a + sizeof_packet w \<le> u" unfolding u_def hs_def using sz by linarith
  then have "read_op heap d2 u = read_op heap d1 u"
    by (intro store_ok_frame [OF ok w2 fs] disjI2)
  also have "\<dots> = Some v" by (rule store_ok_read [OF ok w1 fv])
  finally have rd_u: "flashheap_packet_read heap' u = Some v"
    by (simp add: flashheap_packet_read_def h')
  have neg: "v < 0" unfolding v_def using room [folded hs_def] by linarith
  have chain: "packets w heap' (offset heap') = pre @ (a, sz) # (u, v) # post"
    if inside: "a + hs + c \<le> offset heap + size_h heap"
  proof -
    define h1 where "h1 = heap\<lparr>dev := d1\<rparr>"
    have ok1: "store_ok w h1" using ok by (simp add: store_ok_def h1_def)
    have abs_c: "\<bar>- c\<bar> = c" using sz hs room [folded hs_def] by linarith
    have pk1: "packets w h1 (offset heap) = pre @ (a, - c) # post"
      unfolding h1_def
    proof (rule packets_write_inside [OF ok fv w1 pk])
      show "a + sizeof_packet w \<le> u" unfolding u_def hs_def using sz by linarith
      show "u + sizeof_packet w \<le> a + \<bar>- c\<bar> + sizeof_packet w"
        unfolding abs_c u_def using room [folded hs_def] by (simp add: hs_def)
    qed
    have w2': "write_op h1 (dev h1) a sz = (d2, True)" using w2 by (simp add: h1_def)
    have eq: "a + \<bar>sz\<bar> + sizeof_packet w = u" unfolding u_def hs_def using sz by linarith
    have 1: "packets w (h1\<lparr>dev := d2\<rparr>) (offset heap) = pre @ (a, sz) # packets w h1 u"
      using packets_write [OF ok1 fs w2' pk1] unfolding eq .
    have lt: "u < offset h1 + size_h h1"
      unfolding u_def h1_def using inside room [folded hs_def] hs by simp
    have rd1: "flashheap_packet_read h1 u = Some v"
      using store_ok_read [OF ok w1 fv] by (simp add: flashheap_packet_read_def h1_def)
    from packets_append [OF pk1] have "packets w h1 a = (a, - c) # post" by simp
    from packets_Cons [OF this]
    have "post = packets w h1 (a + \<bar>- c\<bar> + sizeof_packet w)" by simp
    then have post: "post = packets w h1 (a + c + hs)" unfolding abs_c hs_def .
    have "\<bar>v\<bar> = c - sz - hs" unfolding v_def using room [folded hs_def] by linarith
    then have "u + \<bar>v\<bar> + sizeof_packet w = a + c + hs" unfolding u_def hs_def by linarith
    with packets_step [OF lt rd1, of w] post
    have 2: "packets w h1 u = (u, v) # post" by simp
    have "packets w heap' (offset heap') = packets w (h1\<lparr>dev := d2\<rparr>) (offset heap)"
      by (simp add: h' h1_def)
    with 1 2 show ?thesis by simp
  qed
  have ex: "\<exists>pre post. packets w heap (offset heap) = pre @ (a, - c) # post \<and>
            (a + hs + c \<le> offset heap + size_h heap \<longrightarrow>
               packets w heap' (offset heap') = pre @ (a, sz) # (u, v) # post)"
    using pk chain by (intro exI [of _ pre] exI [of _ post]) simp
  show ?thesis
    using conjI [OF ra conjI [OF dev conjI [OF rd_a conjI [OF rd_u conjI [OF neg ex]]]]]
    unfolding u_def v_def hs_def .
qed

theorem alloc_split_witness:
  "store_ok Int16 erased \<and>
   first_fit 30 (packets Int16 erased (offset erased)) = Some (1000, - 98) \<and>
   fits Int16 (- 98) \<and> 30 + sizeof_packet Int16 < 98 \<and>
   fst (flashheap_alloc Int16 erased 30) = 1000 \<and>
   flashheap_packet_read alloc30 1000 = Some 30 \<and>
   flashheap_packet_read alloc30 (1000 + sizeof_packet Int16 + 30) = Some (- 66) \<and>
   packets Int16 alloc30 (offset alloc30) = [(1000, 30), (1032, - 66)]"
proof -
  have ok: "store_ok Int16 erased" using scenario_store_ok by simp
  have ps: "packets Int16 erased (offset erased) = [(1000, - 98)]" by code_simp
  have ff: "first_fit 30 (packets Int16 erased (offset erased)) = Some (1000, - 98)"
    unfolding ps by code_simp
  have fit: "fits Int16 (- 98)" by code_simp
  have sz: "(0::int) \<le> 30" by simp
  have room: "30 + sizeof_packet Int16 < 98" by code_simp
  have r: "fst (flashheap_alloc Int16 erased 30) = 1000" by code_simp
  then have al: "flashheap_alloc Int16 erased 30 = (1000, alloc30)"
    unfolding alloc30_def by (simp add: prod_eq_iff)
  have nz: "(1000::int) \<noteq> 0" by simp
  have inside: "1000 + sizeof_packet Int16 + 98 \<le> offset erased + size_h erased"
    by code_simp
  have v: "- (98 - 30 - sizeof_packet Int16) = - 66" "1000 + sizeof_packet Int16 + 30 = 1032"
    by code_simp+
  note t = alloc_split [OF ok ff fit sz room al nz]
  from t have rd: "flashheap_packet_read alloc30 1000 = Some 30"
    "flashheap_packet_read alloc30 (1000 + sizeof_packet Int16 + 30) = Some (- 66)"
    unfolding v by simp_all
  from t inside obtain pre post where
    pre: "packets Int16 erased (offset erased) = pre @ (1000, - 98) # post" and
    new: "packets Int16 alloc30 (offset alloc30) =
       pre @ (1000, 30) # (1000 + sizeof_packet Int16 + 30, - (98 - 30 - sizeof_packet Int16)) # post"
    by blast
  from pre have "pre = [] \<and> post = []" unfolding ps by (cases pre) auto
  with new have "packets Int16 alloc30 (offset alloc30) = [(1000, 30), (1032, - 66)]"
    unfolding v by simp
  with ok ff fit room r rd show ?thesis by simp
qed

text \<open>
  C3 as stated, for every size below the capacity, fails where the remainder has no room
  for a header and a byte. From the free packet of 98 bytes, a request of 97 writes the
  header 1 after the allocation, an allocated packet and not a free one of capacity
  \<open>98 - 97 - 2\<close>; and a request of 96 writes the header 0, which is not a free packet
  either. A negative size is below every capacity too: a request of \<open>- 5\<close> leaves the
  header \<open>- 5\<close> at the address returned, a free packet and not an allocated one.
\<close>

theorem alloc_split_counterexample:
  "first_fit 97 (packets Int16 erased (offset erased)) = Some (1000, - 98) \<and>
   fst (flashheap_alloc Int16 erased 97) = 1000 \<and>
   flashheap_packet_read (snd (flashheap_alloc Int16 erased 97))
     (1000 + sizeof_packet Int16 + 97) = Some 1 \<and>
   \<not> (1::int) < 0 \<and> \<bar>1::int\<bar> \<noteq> 98 - 97 - sizeof_packet Int16 \<and>
   first_fit 96 (packets Int16 erased (offset erased)) = Some (1000, - 98) \<and>
   fst (flashheap_alloc Int16 erased 96) = 1000 \<and>
   flashheap_packet_read (snd (flashheap_alloc Int16 erased 96))
     (1000 + sizeof_packet Int16 + 96) = Some 0 \<and>
   \<not> (0::int) < 0 \<and>
   first_fit (- 5) (packets Int16 erased (offset erased)) = Some (1000, - 98) \<and>
   fst (flashheap_alloc Int16 erased (- 5)) = 1000 \<and>
   flashheap_packet_read (snd (flashheap_alloc Int16 erased (- 5))) 1000 = Some (- 5) \<and>
   flashheap_alloc_size (snd (flashheap_alloc Int16 erased (- 5))) 1000 = 0"
  by code_simp

subsection \<open>Erase, allocate, release\<close>

text \<open>
  C4, as the source has it. On a device that reads back what was written, after a
  successful erase, a successful allocation of a size from 0 to below
  \<open>size - 2 * sizeof (packet)\<close> and the successful release of the address returned, which
  is \<open>offset\<close>, the packets of the heap are what they were after the erase: one free
  packet at \<open>offset\<close> of magnitude \<open>size - sizeof (packet)\<close>.
\<close>

theorem erase_alloc_free_round_trip:
  assumes ok: "store_ok w heap"
    and fit: "fits w (- (size_h heap - sizeof_packet w))"
    and sz: "0 \<le> sz" and room: "sz < size_h heap - 2 * sizeof_packet w"
    and er: "flashheap_erase w heap = (True, h1)"
    and al: "flashheap_alloc w h1 sz = (a, h2)" and a: "a \<noteq> 0"
    and fr: "flashheap_free w h2 a = Some (True, h3)"
  shows "a = offset heap \<and>
         packets w h1 (offset h1) = [(offset heap, - (size_h heap - sizeof_packet w))] \<and>
         packets w h3 (offset h3) = packets w h1 (offset h1)"
proof -
  define hs where "hs = sizeof_packet w"
  define off where "off = offset heap"
  define c where "c = size_h heap - hs"
  define v where "v = - (c - sz - hs)"
  have hs: "0 < hs" unfolding hs_def by (rule sizeof_packet_pos)
  have room': "sz + hs < c" unfolding c_def using room [folded hs_def] by linarith
  have fit': "fits w (- c)" using fit unfolding c_def hs_def .
  from erase_result [OF er]
  have w0: "write_op heap (dev heap) off (- c) = (dev h1, True)"
    and h1: "h1 = heap\<lparr>dev := dev h1\<rparr>"
    unfolding off_def c_def hs_def by simp_all
  have f1: "read_op h1 = read_op heap" "write_op h1 = write_op heap"
    "offset h1 = off" "size_h h1 = size_h heap"
    unfolding off_def by (subst h1, simp)+
  have rd0: "flashheap_packet_read h1 off = Some (- c)"
    using store_ok_read [OF ok w0 fit'] by (simp add: flashheap_packet_read_def f1)
  have big: "sizeof_packet w \<le> size_h heap" using room' hs sz unfolding c_def hs_def by linarith
  have p1: "packets w h1 (offset h1) = [(off, - c)]"
    using packets_single [of h1 w] rd0 big by (simp add: f1 c_def hs_def)
  have ff: "first_fit sz (packets w h1 (offset h1)) = Some (off, - c)"
    unfolding p1 first_fit_def using sz room' hs by simp
  with al have at: "alloc_at w h1 sz off (- c) = (a, h2)"
    by (simp add: flashheap_alloc_def alloc_scan_first_fit)
  from room' hs have ne: "sz \<noteq> c" by linarith
  from alloc_at_split_success [OF at a ne] obtain d1 d2
    where w1: "write_op heap (dev h1) (off + hs + sz) v = (d1, True)"
      and w2: "write_op heap d1 off sz = (d2, True)"
      and a_off: "a = off" and h2: "h2 = h1\<lparr>dev := d2, last_h := off\<rparr>"
    unfolding v_def hs_def f1 by blast
  have f2: "read_op h2 = read_op heap" "write_op h2 = write_op heap"
    "offset h2 = off" "size_h h2 = size_h heap" "dev h2 = d2"
    by (simp_all add: h2 f1)
  have fv: "fits w v"
  proof (rule fits_between [OF fit'])
    show "- c \<le> v" unfolding v_def using sz hs by linarith
    show "v < c" unfolding v_def using sz hs room' by linarith
  qed
  have fs: "fits w sz"
  proof (rule fits_between [OF fit'])
    show "- c \<le> sz" using sz hs room' by linarith
    show "sz < c" using sz hs room' by linarith
  qed
  have rd2a: "flashheap_packet_read h2 off = Some sz"
    using store_ok_read [OF ok w2 fs] by (simp add: flashheap_packet_read_def f2)
  have "off + sizeof_packet w \<le> off + hs + sz" unfolding hs_def using sz by linarith
  then have "read_op heap d2 (off + hs + sz) = read_op heap d1 (off + hs + sz)"
    by (intro store_ok_frame [OF ok w2 fs] disjI2)
  also have "\<dots> = Some v" by (rule store_ok_read [OF ok w1 fv])
  finally have "flashheap_packet_read h2 (off + hs + sz) = Some v"
    by (simp add: flashheap_packet_read_def f2)
  moreover have "off + hs + sz = off + sz + sizeof_packet w" unfolding hs_def by linarith
  ultimately have rd2u: "flashheap_packet_read h2 (off + sz + sizeof_packet w) = Some v"
    by (simp only:)
  have lt2: "off < offset h2 + size_h h2" unfolding f2 using big sizeof_packet_pos [of w]
    by linarith
  have pk2: "packets w h2 (offset h2) =
          [] @ (off, sz) # packets w h2 (off + \<bar>sz\<bar> + sizeof_packet w)"
    using packets_step [OF lt2 rd2a, of w] by (simp add: f2)
  have mp: "merged_packet w (left_neighbour []) (off, sz) v = (off, c)"
  proof -
    have "v < 0" unfolding v_def using room' by linarith
    moreover have "\<bar>sz\<bar> + \<bar>v\<bar> + sizeof_packet w = c"
      unfolding v_def hs_def [symmetric] using sz room' by linarith
    ultimately show ?thesis
      by (simp add: merged_packet_def left_neighbour_def Let_def)
  qed
  have "flashheap_free w h2 off =
          (case packet_write h2 off (- c) of (d, ok) \<Rightarrow> Some (ok, h2\<lparr>dev := d\<rparr>))"
    by (simp add: free_allocated [OF pk2 sz] rd2u mp)
  with fr a_off
  have w3: "write_op heap d2 off (- c) = (dev h3, True)" and h3: "h3 = h2\<lparr>dev := dev h3\<rparr>"
    by (auto simp add: packet_write_def f2 split: prod.splits)
  have f3: "read_op h3 = read_op heap" "offset h3 = off" "size_h h3 = size_h heap"
    by (subst h3, simp add: f2)+
  have rd3: "flashheap_packet_read h3 off = Some (- c)"
    using store_ok_read [OF ok w3 fit'] by (simp add: flashheap_packet_read_def f3)
  have p3: "packets w h3 (offset h3) = [(off, - c)]"
    using packets_single [of h3 w] rd3 big by (simp add: f3 c_def hs_def)
  from a_off p1 p3 show ?thesis unfolding off_def c_def hs_def by simp
qed

theorem erase_alloc_free_round_trip_witness:
  "store_ok Int16 scenario \<and>
   fits Int16 (- (size_h scenario - sizeof_packet Int16)) \<and>
   30 < size_h scenario - 2 * sizeof_packet Int16 \<and>
   flashheap_erase Int16 scenario = (True, erased) \<and>
   flashheap_alloc Int16 erased 30 = (1000, alloc30) \<and>
   map_option (\<lambda>(ok, h). (ok, packets Int16 h (offset h))) (flashheap_free Int16 alloc30 1000)
     = Some (True, [(1000, - 98)]) \<and>
   packets Int16 erased (offset erased) = [(1000, - 98)]"
proof -
  have ok: "store_ok Int16 scenario" using scenario_store_ok by simp
  have fit: "fits Int16 (- (size_h scenario - sizeof_packet Int16))" by code_simp
  have sz: "(0::int) \<le> 30" by simp
  have room: "30 < size_h scenario - 2 * sizeof_packet Int16" by code_simp
  have "fst (flashheap_erase Int16 scenario) = True" by code_simp
  then have er: "flashheap_erase Int16 scenario = (True, erased)"
    unfolding erased_def by (simp add: prod_eq_iff)
  have "fst (flashheap_alloc Int16 erased 30) = 1000" by code_simp
  then have al: "flashheap_alloc Int16 erased 30 = (1000, alloc30)"
    unfolding alloc30_def by (simp add: prod_eq_iff)
  have nz: "(1000::int) \<noteq> 0" by simp
  have "map_option fst (flashheap_free Int16 alloc30 1000) = Some True" by code_simp
  then obtain h3 where fr: "flashheap_free Int16 alloc30 1000 = Some (True, h3)"
    by (cases "flashheap_free Int16 alloc30 1000") auto
  have c: "- (size_h scenario - sizeof_packet Int16) = - 98" "offset scenario = 1000"
    by code_simp+
  from erase_alloc_free_round_trip [OF ok fit sz room er al nz fr]
  have "packets Int16 erased (offset erased) = [(1000, - 98)]"
    "packets Int16 h3 (offset h3) = [(1000, - 98)]"
    unfolding c by simp_all
  with ok fit room er al fr show ?thesis by simp
qed

text \<open>
  C4 as stated includes the size \<open>size - 2 * sizeof (packet)\<close>, 96 in the scenario. The
  remainder of that allocation is the header 0 at 1098, which does not count as free, so
  the release does not coalesce: a free packet of 96 bytes followed by a packet of length
  0, not the one free packet of 98 bytes. A negative size is below the bound too: after
  the allocation of \<open>- 5\<close> the header at the address returned is \<open>- 5\<close>, and the release
  fails and leaves it.
\<close>

theorem erase_alloc_free_round_trip_counterexample:
  "(96::int) \<le> size_h scenario - 2 * sizeof_packet Int16 \<and>
   fst (flashheap_erase Int16 scenario) \<and>
   packets Int16 erased (offset erased) = [(1000, - 98)] \<and>
   fst (flashheap_alloc Int16 erased 96) = 1000 \<and>
   map_option (\<lambda>(ok, h). (ok, packets Int16 h (offset h)))
     (flashheap_free Int16 (snd (flashheap_alloc Int16 erased 96)) 1000)
     = Some (True, [(1000, - 96), (1098, 0)]) \<and>
   fst (flashheap_alloc Int16 erased (- 5)) = 1000 \<and>
   map_option (\<lambda>(ok, h). (ok, flashheap_packet_read h 1000))
     (flashheap_free Int16 (snd (flashheap_alloc Int16 erased (- 5))) 1000)
     = Some (False, Some (- 5))"
  by code_simp

subsection \<open>Coalescing\<close>

text \<open>
  What \<open>flashheap_free\<close> does with the header that it reads after the packet, wherever
  that header lies: on success it has written one header, the negated magnitude of
  \<open>merged_packet\<close> at the address of \<open>merged_packet\<close>. On a device that reads back what was
  written, that header replaces the merged packets in the sequence, and when no two
  packets in a row were free before the call, none are after it.
\<close>

lemma free_writes_merged:
  assumes pk: "packets w heap (offset heap) = xs @ (ptr, p) # ys" and p: "0 \<le> p"
    and fr: "flashheap_free w heap ptr = Some (True, heap')"
  shows "\<exists>n a m.
           flashheap_packet_read heap (ptr + p + sizeof_packet w) = Some n \<and>
           merged_packet w (left_neighbour xs) (ptr, p) n = (a, m) \<and>
           packet_write heap a (- m) = (dev heap', True) \<and>
           heap' = heap\<lparr>dev := dev heap'\<rparr> \<and>
           (store_ok w heap \<and> fits w (- m) \<longrightarrow>
              (\<exists>pre q post.
                 packets w heap (offset heap) = pre @ (a, q) # post \<and>
                 packets w heap' (offset heap') =
                   pre @ (a, - m) # packets w heap (a + m + sizeof_packet w)) \<and>
              (no_adjacent_free (packets w heap (offset heap)) \<longrightarrow>
                 no_adjacent_free (packets w heap' (offset heap'))))"
proof -
  from fr free_allocated [OF pk p] obtain n
    where rd: "flashheap_packet_read heap (ptr + p + sizeof_packet w) = Some n"
    by (cases "flashheap_packet_read heap (ptr + p + sizeof_packet w)") auto
  obtain a m where am: "merged_packet w (left_neighbour xs) (ptr, p) n = (a, m)"
    by (cases "merged_packet w (left_neighbour xs) (ptr, p) n")
  from fr free_allocated [OF pk p] rd am
  have wr: "packet_write heap a (- m) = (dev heap', True)"
    by (auto split: prod.splits)
  have h': "heap' = heap\<lparr>dev := dev heap'\<rparr>" by (rule free_result [OF fr])
  from merged_reach [OF pk p am] obtain pre q post
    where m: "0 \<le> m"
      and reach: "a + m + sizeof_packet w =
           ptr + p + sizeof_packet w + (if n < 0 then \<bar>n\<bar> + sizeof_packet w else 0)"
      and dec: "xs @ (ptr, p) # ys = pre @ (a, q) # post"
      and left: "no_adjacent_free (xs @ (ptr, p) # ys) \<longrightarrow>
                   no_adjacent_free pre \<and> \<not> free_last pre"
    by blast
  have rest: "store_ok w heap \<and> fits w (- m) \<longrightarrow>
              (\<exists>pre q post.
                 packets w heap (offset heap) = pre @ (a, q) # post \<and>
                 packets w heap' (offset heap') =
                   pre @ (a, - m) # packets w heap (a + m + sizeof_packet w)) \<and>
              (no_adjacent_free (packets w heap (offset heap)) \<longrightarrow>
                 no_adjacent_free (packets w heap' (offset heap')))"
  proof
    assume "store_ok w heap \<and> fits w (- m)"
    then have ok: "store_ok w heap" and fit: "fits w (- m)" by simp_all
    have pk': "packets w heap (offset heap) = pre @ (a, q) # post"
      using pk dec by simp
    have wr': "write_op heap (dev heap) a (- m) = (dev heap', True)"
      using wr by (simp add: packet_write_def)
    have abs_m: "\<bar>- m\<bar> = m" using m by linarith
    have "packets w (heap\<lparr>dev := dev heap'\<rparr>) (offset heap) =
            pre @ (a, - m) # packets w heap (a + \<bar>- m\<bar> + sizeof_packet w)"
      by (rule packets_write [OF ok fit wr' pk'])
    moreover have "offset heap' = offset heap" by (subst h') simp
    ultimately have new: "packets w heap' (offset heap') =
            pre @ (a, - m) # packets w heap (a + m + sizeof_packet w)"
      unfolding abs_m using h' by simp
    have adj: "no_adjacent_free (packets w heap' (offset heap'))"
      if before: "no_adjacent_free (packets w heap (offset heap))"
    proof -
      from before pk have b: "no_adjacent_free (xs @ (ptr, p) # ys)" by simp
      from left b have l: "no_adjacent_free pre" "\<not> free_last pre" by simp_all
      from right_part [OF pk p rd b]
      have r: "no_adjacent_free (packets w heap (a + m + sizeof_packet w))"
        "\<not> free_hd (packets w heap (a + m + sizeof_packet w))"
        unfolding reach by simp_all
      show ?thesis
        unfolding new using l r
        by (simp add: no_adjacent_free_append no_adjacent_free_Cons)
    qed
    from pk' new adj show "(\<exists>pre q post.
                 packets w heap (offset heap) = pre @ (a, q) # post \<and>
                 packets w heap' (offset heap') =
                   pre @ (a, - m) # packets w heap (a + m + sizeof_packet w)) \<and>
              (no_adjacent_free (packets w heap (offset heap)) \<longrightarrow>
                 no_adjacent_free (packets w heap' (offset heap')))"
      by blast
  qed
  show ?thesis
    by (intro exI [of _ n] exI [of _ a] exI [of _ m] conjI rd am wr h' rest)
qed

text \<open>
  Where the header that follows the packet lies within the region it is the header of
  the right neighbour, and the header written is the one of the rule on the packets of
  the region.
\<close>

lemma free_coalesces_inside:
  assumes pk: "packets w heap (offset heap) = xs @ (ptr, p) # ys" and p: "0 \<le> p"
    and inside: "ptr + p + sizeof_packet w < offset heap + size_h heap"
    and fr: "flashheap_free w heap ptr = Some (True, heap')"
  shows "\<exists>a m.
           coalescing_rule w (left_neighbour xs) (ptr, p) (right_neighbour ys) = (a, m) \<and>
           packet_write heap a (- m) = (dev heap', True) \<and>
           heap' = heap\<lparr>dev := dev heap'\<rparr> \<and>
           (store_ok w heap \<and> fits w (- m) \<and>
            no_adjacent_free (packets w heap (offset heap)) \<longrightarrow>
              no_adjacent_free (packets w heap' (offset heap')))"
proof -
  from free_writes_merged [OF pk p fr] obtain n a m
    where rd: "flashheap_packet_read heap (ptr + p + sizeof_packet w) = Some n"
      and am: "merged_packet w (left_neighbour xs) (ptr, p) n = (a, m)"
      and wr: "packet_write heap a (- m) = (dev heap', True)"
      and h': "heap' = heap\<lparr>dev := dev heap'\<rparr>"
      and adj: "store_ok w heap \<and> fits w (- m) \<longrightarrow>
                (no_adjacent_free (packets w heap (offset heap)) \<longrightarrow>
                   no_adjacent_free (packets w heap' (offset heap')))"
    by blast
  from packets_append [OF pk] have "packets w heap ptr = (ptr, p) # ys" by simp
  from packets_Cons [OF this] p
  have "ys = packets w heap (ptr + p + sizeof_packet w)" by simp
  with packets_step [OF inside rd, of w]
  have "right_neighbour ys = Some (ptr + p + sizeof_packet w, n)"
    by (simp add: right_neighbour_def)
  with am have r: "coalescing_rule w (left_neighbour xs) (ptr, p) (right_neighbour ys) = (a, m)"
    by (simp add: coalescing_rule_merged)
  from adj have adj': "store_ok w heap \<and> fits w (- m) \<and>
            no_adjacent_free (packets w heap (offset heap)) \<longrightarrow>
              no_adjacent_free (packets w heap' (offset heap'))" by blast
  show ?thesis
    by (intro exI [of _ a] exI [of _ m] conjI r wr h' adj')
qed

text \<open>
  C2. On a device whose bytes read \<open>0xFF\<close>, as erased flash does, the region of the
  scenario holds one allocated packet of 98 bytes: it tiles the region and has no
  neighbour, so the rule leaves the single negated header \<open>- 98\<close> at 1000.
  \<open>flashheap_free\<close> reads the header that follows the packet at 1100, outside the region,
  finds \<open>- 1\<close> there and takes it for a free right neighbour: it writes \<open>- 101\<close> at 1000
  and returns success, and the walk now leaves the region at 1103.
\<close>

theorem free_merges_past_region_end:
  "packets Int16 full_on_flash (offset full_on_flash) = [] @ (1000, 98) # [] \<and>
   tiled Int16 full_on_flash \<and>
   coalescing_rule Int16 (left_neighbour []) (1000, 98) (right_neighbour []) = (1000, 98) \<and>
   flashheap_packet_read full_on_flash (offset full_on_flash + size_h full_on_flash)
     = Some (- 1) \<and>
   map_option
     (\<lambda>(ok, h). (ok, flashheap_packet_read h 1000, packets Int16 h (offset h),
                  walk_end Int16 h (offset h), tiled Int16 h))
     (flashheap_free Int16 full_on_flash 1000)
     = Some (True, Some (- 101), [(1000, - 101)], Some 1103, False)"
  by code_simp

subsection \<open>A call of flashheap_free that fails\<close>

text \<open>
  C9, as the source has it. \<open>flashheap_free\<close> writes to the device at most once: the heap
  that it leaves is the heap before, or the heap after one write, whose result the call
  returns. The call fails and leaves the heap as it was when the address is not found
  (it is no packet of the sequence, also when a header cannot be read on the way, and not
  the address where the walk ends), when the packet is already free, and when the header
  that follows the packet cannot be read. Otherwise the one write is that of the header
  after coalescing, never of the negated header before it, and the heap is what this
  write has left, on failure too: the heap before the call on a device whose failed
  writes store nothing.
\<close>

theorem free_fails_before_write:
  "(\<forall>ok heap'. flashheap_free w heap ptr = Some (ok, heap') \<longrightarrow>
      (heap' = heap \<and> \<not> ok) \<or>
      (\<exists>a v. packet_write heap a v = (dev heap', ok) \<and> heap' = heap\<lparr>dev := dev heap'\<rparr>)) \<and>
   (ptr \<notin> fst ` set (packets w heap (offset heap)) \<and>
    walk_end w heap (offset heap) \<noteq> Some ptr \<longrightarrow>
      flashheap_free w heap ptr = Some (False, heap)) \<and>
   (\<forall>p. (ptr, p) \<in> set (packets w heap (offset heap)) \<and> p < 0 \<longrightarrow>
      flashheap_free w heap ptr = Some (False, heap)) \<and>
   (\<forall>p. (ptr, p) \<in> set (packets w heap (offset heap)) \<and> 0 \<le> p \<and>
        flashheap_packet_read heap (ptr + p + sizeof_packet w) = None \<longrightarrow>
      flashheap_free w heap ptr = Some (False, heap)) \<and>
   (\<forall>xs p ys n a m.
      packets w heap (offset heap) = xs @ (ptr, p) # ys \<and> 0 \<le> p \<and>
      flashheap_packet_read heap (ptr + p + sizeof_packet w) = Some n \<and>
      merged_packet w (left_neighbour xs) (ptr, p) n = (a, m) \<longrightarrow>
      flashheap_free w heap ptr =
        Some (snd (packet_write heap a (- m)),
              heap\<lparr>dev := fst (packet_write heap a (- m))\<rparr>)) \<and>
   (\<forall>heap'. flashheap_free w heap ptr = Some (False, heap') \<and> write_atomic heap \<longrightarrow>
      heap' = heap)"
proof -
  have 1: "(heap' = heap \<and> \<not> ok) \<or>
      (\<exists>a v. packet_write heap a v = (dev heap', ok) \<and> heap' = heap\<lparr>dev := dev heap'\<rparr>)"
    if "flashheap_free w heap ptr = Some (ok, heap')" for ok heap'
    by (rule free_at_most_one_write [OF that])
  have 2: "flashheap_free w heap ptr = Some (False, heap)"
    if "ptr \<notin> fst ` set (packets w heap (offset heap)) \<and>
        walk_end w heap (offset heap) \<noteq> Some ptr"
    using that by (intro free_not_found) simp_all
  have 3: "flashheap_free w heap ptr = Some (False, heap)"
    if "(ptr, p) \<in> set (packets w heap (offset heap)) \<and> p < 0" for p
  proof -
    from that obtain xs ys where "packets w heap (offset heap) = xs @ (ptr, p) # ys"
      by (auto dest: split_list)
    from free_found [OF this] that show ?thesis by simp
  qed
  have 4: "flashheap_free w heap ptr = Some (False, heap)"
    if "(ptr, p) \<in> set (packets w heap (offset heap)) \<and> 0 \<le> p \<and>
        flashheap_packet_read heap (ptr + p + sizeof_packet w) = None" for p
  proof -
    from that obtain xs ys where "packets w heap (offset heap) = xs @ (ptr, p) # ys"
      by (auto dest: split_list)
    from free_found [OF this] that show ?thesis by simp
  qed
  have 5: "flashheap_free w heap ptr =
        Some (snd (packet_write heap a (- m)),
              heap\<lparr>dev := fst (packet_write heap a (- m))\<rparr>)"
    if "packets w heap (offset heap) = xs @ (ptr, p) # ys \<and> 0 \<le> p \<and>
      flashheap_packet_read heap (ptr + p + sizeof_packet w) = Some n \<and>
      merged_packet w (left_neighbour xs) (ptr, p) n = (a, m)" for xs p ys n a m
  proof -
    from that have pk: "packets w heap (offset heap) = xs @ (ptr, p) # ys" and p: "0 \<le> p"
      by simp_all
    from free_allocated [OF pk p] that show ?thesis
      by (simp split: prod.splits)
  qed
  have 6: "heap' = heap"
    if "flashheap_free w heap ptr = Some (False, heap') \<and> write_atomic heap" for heap'
  proof -
    from that have fr: "flashheap_free w heap ptr = Some (False, heap')"
      and wa: "write_atomic heap" by simp_all
    from free_at_most_one_write [OF fr] show ?thesis
    proof
      assume "heap' = heap \<and> \<not> False" then show ?thesis by simp
    next
      assume "\<exists>a v. packet_write heap a v = (dev heap', False) \<and>
                heap' = heap\<lparr>dev := dev heap'\<rparr>"
      then obtain a v where wr: "packet_write heap a v = (dev heap', False)"
        and h: "heap' = heap\<lparr>dev := dev heap'\<rparr>" by blast
      from wa have "\<not> snd (write_op heap (dev heap) a v) \<longrightarrow>
          fst (write_op heap (dev heap) a v) = dev heap"
        by (simp add: write_atomic_def)
      with wr have "dev heap' = dev heap" by (simp add: packet_write_def)
      with h show ?thesis by simp
    qed
  qed
  show ?thesis
    apply (intro conjI allI impI)
    subgoal for ok heap' by (rule 1)
    subgoal by (rule 2)
    subgoal for p by (rule 3)
    subgoal for p by (rule 4)
    subgoal for xs p ys n a m by (rule 5)
    subgoal for heap' by (rule 6)
    done
qed

theorem free_fails_before_write_witness:
  "packets Int16 alloc30 (offset alloc30) = [(1000, 30), (1032, - 66)] \<and>
   walk_end Int16 alloc30 (offset alloc30) = Some 1100 \<and>
   flashheap_free Int16 alloc30 1001 = Some (False, alloc30) \<and>
   flashheap_free Int16 alloc30 1032 = Some (False, alloc30) \<and>
   packets Int16 full_at_device_end (offset full_at_device_end) = [(1000, 98)] \<and>
   flashheap_packet_read full_at_device_end (1000 + 98 + sizeof_packet Int16) = None \<and>
   flashheap_free Int16 full_at_device_end 1000 = Some (False, full_at_device_end) \<and>
   write_atomic write_protected \<and>
   packets Int16 write_protected (offset write_protected) = [(1000, 30), (1032, - 66)] \<and>
   flashheap_free Int16 write_protected 1000 = Some (False, write_protected)"
proof -
  have ps: "packets Int16 alloc30 (offset alloc30) = [(1000, 30), (1032, - 66)]"
    by code_simp
  have we: "walk_end Int16 alloc30 (offset alloc30) = Some 1100" by code_simp
  have nf: "1001 \<notin> fst ` set (packets Int16 alloc30 (offset alloc30)) \<and>
            walk_end Int16 alloc30 (offset alloc30) \<noteq> Some 1001"
    unfolding ps we by simp
  have a: "flashheap_free Int16 alloc30 1001 = Some (False, alloc30)"
    using free_fails_before_write [of Int16 alloc30 1001] nf by blast
  have fp: "(1032, - 66) \<in> set (packets Int16 alloc30 (offset alloc30)) \<and> (- 66 :: int) < 0"
    unfolding ps by simp
  have b: "flashheap_free Int16 alloc30 1032 = Some (False, alloc30)"
    using free_fails_before_write [of Int16 alloc30 1032] fp by blast
  have pe: "packets Int16 full_at_device_end (offset full_at_device_end) = [(1000, 98)]"
    by code_simp
  have rd: "flashheap_packet_read full_at_device_end (1000 + 98 + sizeof_packet Int16) = None"
    by code_simp
  have rf: "(1000, 98) \<in> set (packets Int16 full_at_device_end (offset full_at_device_end)) \<and>
            (0::int) \<le> 98 \<and>
            flashheap_packet_read full_at_device_end (1000 + 98 + sizeof_packet Int16) = None"
    unfolding pe using rd by simp
  have c: "flashheap_free Int16 full_at_device_end 1000 = Some (False, full_at_device_end)"
    using free_fails_before_write [of Int16 full_at_device_end 1000] rf by blast
  have wp: "write_atomic write_protected"
    by (simp add: write_atomic_def write_protected_def)
  have pw: "packets Int16 write_protected (offset write_protected) = [(1000, 30), (1032, - 66)]"
    by code_simp
  have "map_option fst (flashheap_free Int16 write_protected 1000) = Some False"
    by code_simp
  then obtain h' where h': "flashheap_free Int16 write_protected 1000 = Some (False, h')"
    by (cases "flashheap_free Int16 write_protected 1000") auto
  have "h' = write_protected"
    using free_fails_before_write [of Int16 write_protected 1000] h' wp by blast
  with h' have d: "flashheap_free Int16 write_protected 1000 = Some (False, write_protected)"
    by simp
  from ps we a b pe rd c wp pw d show ?thesis by simp
qed

text \<open>
  C9 as stated says that the stored contents are as before also when the one write
  fails. On a device that stores one byte of the two and reports the short transfer, the
  release of the packet at 1000 fails, and the header there has changed from 30 to 158:
  the low byte of \<open>- 98\<close> over the high byte of 30.
\<close>

theorem free_failure_atomic_counterexample:
  "packets Int16 short_writer (offset short_writer) = [(1000, 30), (1032, - 66)] \<and>
   flashheap_packet_read short_writer 1000 = Some 30 \<and>
   map_option (\<lambda>(ok, h). (ok, flashheap_packet_read h 1000))
     (flashheap_free Int16 short_writer 1000) = Some (False, Some 158)"
  by code_simp

end
